theory Spec2Isabelle
  imports Main "HOL-Library.Sublist" "HOL-Library.AList"
begin

section \<open>Text and the string operations of the source\<close>

text \<open>
  The dump text and every string of the parser are lists of characters. A character is
  read as a code point in the range 0..255; the punctuation the parser looks at is
  named here once.
\<close>

abbreviation squote :: char where "squote \<equiv> CHR 0x27"
abbreviation dquote :: char where "dquote \<equiv> CHR 0x22"
abbreviation backslash :: char where "backslash \<equiv> CHR 0x5C"
abbreviation backtick :: char where "backtick \<equiv> CHR 0x60"
abbreviation newline :: char where "newline \<equiv> CHR 0x0A"

text \<open>
  \<^verbatim>\<open>str.isspace\<close> on one character, which is also the class \<^verbatim>\<open>\s\<close> of a
  pattern over text: tab to carriage return, the four separators 0x1C..0x1F, the
  space, NEL (0x85) and the no-break space (0xA0).
\<close>

definition isspace :: "char \<Rightarrow> bool" where
  "isspace c = (c \<in> set [CHR 0x09, CHR 0x0A, CHR 0x0B, CHR 0x0C, CHR 0x0D,
                          CHR 0x1C, CHR 0x1D, CHR 0x1E, CHR 0x1F, CHR 0x20,
                          CHR 0x85, CHR 0xA0])"

text \<open>\<^verbatim>\<open>str.strip()\<close>: white space is removed at both ends.\<close>

definition strip :: "string \<Rightarrow> string" where
  "strip s = rev (dropWhile isspace (rev (dropWhile isspace s)))"

text \<open>\<^verbatim>\<open>s.startswith(p)\<close> and \<^verbatim>\<open>s.endswith(p)\<close>.\<close>

definition startswith :: "string \<Rightarrow> string \<Rightarrow> bool" where
  "startswith s p = prefix p s"

definition endswith :: "string \<Rightarrow> string \<Rightarrow> bool" where
  "endswith s p = suffix p s"

text \<open>
  Letter case. Between code points 0 and 255 the only characters whose upper case is
  one of the letters of \<^verbatim>\<open>NULL\<close>, and the only ones that a pattern letter matches when
  case is ignored, are the two ASCII forms of that letter; the other characters are
  left as they are.
\<close>

definition upper_char :: "char \<Rightarrow> char" where
  "upper_char c = (case map_of (zip ''abcdefghijklmnopqrstuvwxyz''
                                     ''ABCDEFGHIJKLMNOPQRSTUVWXYZ'') c of
                     Some u \<Rightarrow> u | None \<Rightarrow> c)"

definition lower_char :: "char \<Rightarrow> char" where
  "lower_char c = (case map_of (zip ''ABCDEFGHIJKLMNOPQRSTUVWXYZ''
                                     ''abcdefghijklmnopqrstuvwxyz'') c of
                     Some l \<Rightarrow> l | None \<Rightarrow> c)"

definition upper :: "string \<Rightarrow> string" where
  "upper s = map upper_char s"

text \<open>\<^verbatim>\<open>str.isdigit()\<close>: not empty, and every character a digit (among the code points
  0..255 these are 0 to 9 and the superscripts 0xB2, 0xB3, 0xB9).\<close>

definition isdigit :: "string \<Rightarrow> bool" where
  "isdigit s = (s \<noteq> [] \<and> (\<forall>c \<in> set s. c \<in> set ''0123456789'' \<or> c \<in> set [CHR 0xB2, CHR 0xB3, CHR 0xB9]))"

text \<open>
  \<^verbatim>\<open>s.replace(old, new)\<close> for a pattern \<open>old\<close> that is not empty: the occurrences are
  replaced from the left and do not overlap. (The source only calls it with patterns of
  two characters.)
\<close>

function replace :: "string \<Rightarrow> string \<Rightarrow> string \<Rightarrow> string" where
  "replace old new s =
     (if old = [] then s
      else if s = [] then []
      else if prefix old s then new @ replace old new (drop (length old) s)
      else hd s # replace old new (tl s))"
  by pat_completeness auto
termination
  by (relation "measure (\<lambda>(old, new, s). length s)") (auto simp: neq_Nil_conv)

declare replace.simps [simp del]

text \<open>\<^verbatim>\<open>s.split(c)\<close> for a separator of one character; the result is never empty.\<close>

fun py_split :: "char \<Rightarrow> string \<Rightarrow> string list" where
  "py_split c [] = [[]]"
| "py_split c (x # xs) =
     (if x = c then [] # py_split c xs
      else (case py_split c xs of
              [] \<Rightarrow> [[x]]
            | w # ws \<Rightarrow> (x # w) # ws))"

text \<open>\<^verbatim>\<open>s[1:-1]\<close>: the first and the last character are dropped.\<close>

definition inner :: "string \<Rightarrow> string" where
  "inner s = butlast (tl s)"

section \<open>Value Normalizer: \<^verbatim>\<open>SQLFileParser.clean_value\<close>\<close>

text \<open>A value is null (\<open>None\<close>) or text.\<close>

type_synonym val = "string option"

definition clean_value :: "string \<Rightarrow> val" where
  "clean_value value0 =
     (let v = strip value0 in
      if upper v = ''NULL'' then None
      else if startswith v [squote] \<and> endswith v [squote] then
        Some (replace [backslash, backslash] [backslash]
               (replace [backslash, squote] [squote] (inner v)))
      else if startswith v [dquote] \<and> endswith v [dquote] then
        Some (replace [backslash, backslash] [backslash]
               (replace [backslash, dquote] [dquote] (inner v)))
      else if isdigit v then Some v
      else Some v)"

section \<open>Value Tokenizer: \<^verbatim>\<open>SQLFileParser.parse_values_string\<close>\<close>

text \<open>The local variables of the scan.\<close>

record scan_state =
  rows :: "val list list"
  current_row :: "val list"
  current_value :: string
  in_quotes :: bool
  quote_char :: "char option"

definition init_state :: scan_state where
  "init_state = \<lparr>rows = [], current_row = [], current_value = [],
                 in_quotes = False, quote_char = None\<rparr>"

text \<open>
  After a closing parenthesis at index \<open>i\<close> the source moves \<open>i\<close> forward while the
  next character is not an opening parenthesis, steps onto that parenthesis if there is
  one, and the increment at the end of the loop body steps over it.
  \<open>skip_to_paren\<close> takes the text after index \<open>i\<close> and returns the text from which
  the scan goes on.
\<close>

fun skip_to_paren :: "string \<Rightarrow> string" where
  "skip_to_paren [] = []"
| "skip_to_paren (c # cs) = (if c = CHR ''('' then cs else skip_to_paren cs)"

text \<open>Closing a token: \<^verbatim>\<open>current_row.append(clean_value(current_value.strip()))\<close>.\<close>

definition push_value :: "scan_state \<Rightarrow> scan_state" where
  "push_value st = st\<lparr>current_row := current_row st @ [clean_value (strip (current_value st))],
                       current_value := []\<rparr>"

text \<open>
  The body of the \<^verbatim>\<open>while\<close> loop, on the text from index \<open>i\<close> on. \<open>prev\<close> is the
  character at index \<open>i - 1\<close>, and \<open>None\<close> when \<open>i = 0\<close>.
\<close>

function scan :: "char option \<Rightarrow> string \<Rightarrow> scan_state \<Rightarrow> scan_state" where
  "scan prev [] st = st"
| "scan prev (c # cs) st =
     (if \<not> in_quotes st then
        if c = squote \<or> c = dquote then
          scan (Some c) cs (st\<lparr>in_quotes := True, quote_char := Some c,
                               current_value := current_value st @ [c]\<rparr>)
        else if c = CHR '','' then
          scan (Some c) cs (push_value st)
        else if c = CHR '')'' then
          (let st1 = (if strip (current_value st) \<noteq> [] then push_value st else st);
               st2 = (if current_row st1 \<noteq> [] then st1\<lparr>rows := rows st1 @ [current_row st1]\<rparr> else st1);
               st3 = st2\<lparr>current_row := [], current_value := []\<rparr>
           in scan (Some (CHR ''('')) (skip_to_paren cs) st3)
        else
          scan (Some c) cs (st\<lparr>current_value := current_value st @ [c]\<rparr>)
      else
        (let st1 = st\<lparr>current_value := current_value st @ [c]\<rparr> in
         if Some c = quote_char st \<and> (prev = None \<or> prev \<noteq> Some backslash) then
           scan (Some c) cs (st1\<lparr>in_quotes := False, quote_char := None\<rparr>)
         else scan (Some c) cs st1))"
  by pat_completeness auto
termination
proof (relation "measure (\<lambda>(prev, s, st). length s)")
  have skip: "length (skip_to_paren s) \<le> length s" for s
    by (induction s) auto
  fix prev :: "char option" and c :: char and cs :: string and st x xa xb :: scan_state
  show "((Some (CHR ''(''), skip_to_paren cs, xb), prev, c # cs, st)
          \<in> measure (\<lambda>(prev, s, st). length s)"
    using skip [of cs] by simp
qed auto

declare scan.simps(2) [simp del]

text \<open>After the loop: a pending token and a pending row are flushed.\<close>

definition finish :: "scan_state \<Rightarrow> val list list" where
  "finish st =
     (let st1 = (if strip (current_value st) \<noteq> [] then push_value st else st)
      in if current_row st1 \<noteq> [] then rows st1 @ [current_row st1] else rows st1)"

definition parse_values_string :: "string \<Rightarrow> val list list" where
  "parse_values_string values_string = finish (scan None values_string init_state)"

section \<open>The two patterns of \<^verbatim>\<open>extract_table_data\<close>\<close>

text \<open>
  The source finds the statements with two regular expressions, compiled with
  \<^verbatim>\<open>re.DOTALL | re.IGNORECASE\<close>. They are built from five kinds of items: a literal
  character (compared ignoring case), \<^verbatim>\<open>\s*\<close> (greedy), \<^verbatim>\<open>.*?\<close> (lazy; with DOTALL
  the dot matches every character), and the two parentheses of group 1.
\<close>

datatype rx = Lit char | Spaces | Lazy | GroupStart | GroupEnd

text \<open>
  The backtracking matcher, anchored at the start of the text. \<open>g\<close> says whether group 1
  is open and \<open>cap\<close> is the text the group has taken so far; the result is the text of
  group 1 and the text after the match. A greedy star first takes one more character
  and gives it back when the rest of the pattern fails; a lazy star first tries the rest
  of the pattern and takes one more character when that fails.
\<close>

fun rx_match :: "rx list \<Rightarrow> string \<Rightarrow> bool \<Rightarrow> string \<Rightarrow> (string \<times> string) option" where
  "rx_match [] s g cap = Some (cap, s)"
| "rx_match (Lit c # p) [] g cap = None"
| "rx_match (Lit c # p) (x # xs) g cap =
     (if lower_char x = lower_char c then rx_match p xs g (if g then cap @ [x] else cap)
      else None)"
| "rx_match (Spaces # p) [] g cap = rx_match p [] g cap"
| "rx_match (Spaces # p) (x # xs) g cap =
     (if isspace x then
        (case rx_match (Spaces # p) xs g (if g then cap @ [x] else cap) of
           Some r \<Rightarrow> Some r
         | None \<Rightarrow> rx_match p (x # xs) g cap)
      else rx_match p (x # xs) g cap)"
| "rx_match (Lazy # p) s g cap =
     (case rx_match p s g cap of
        Some r \<Rightarrow> Some r
      | None \<Rightarrow> (case s of
                   [] \<Rightarrow> None
                 | x # xs \<Rightarrow> rx_match (Lazy # p) xs g (if g then cap @ [x] else cap)))"
| "rx_match (GroupStart # p) s g cap = rx_match p s True []"
| "rx_match (GroupEnd # p) s g cap = rx_match p s False cap"

text \<open>\<^verbatim>\<open>re.search\<close>: the match at the leftmost position that has one.\<close>

fun rx_search :: "rx list \<Rightarrow> string \<Rightarrow> (string \<times> string) option" where
  "rx_search p [] = rx_match p [] False []"
| "rx_search p (x # xs) =
     (case rx_match p (x # xs) False [] of
        Some r \<Rightarrow> Some r
      | None \<Rightarrow> rx_search p xs)"

text \<open>
  \<^verbatim>\<open>re.findall\<close> for a pattern with one group: the text of group 1 of every match,
  from left to right, each search starting where the match before it ended. The two
  patterns of the source begin with a literal character, so a match of theirs is never
  empty; the branch for a match that takes no character (the search moves on by one
  character) only makes the function total.
\<close>

function findall :: "rx list \<Rightarrow> string \<Rightarrow> string list" where
  "findall p s =
     (case rx_match p s False [] of
        None \<Rightarrow> (case s of [] \<Rightarrow> [] | x # xs \<Rightarrow> findall p xs)
      | Some (grp, rest) \<Rightarrow>
          if length rest < length s then grp # findall p rest
          else grp # (case s of [] \<Rightarrow> [] | x # xs \<Rightarrow> findall p xs))"
  by pat_completeness auto
termination
  by (relation "measure (\<lambda>(p, s). length s)") auto

declare findall.simps [simp del]

text \<open>
  The pattern \<^verbatim>\<open>INSERT INTO `{table_name}`.*?VALUES\s*(.*?);\<close> and the pattern
  \<^verbatim>\<open>CREATE TABLE `{table_name}`\s*\((.*?)\)\s*ENGINE\<close>. The characters of the table name
  go into the pattern as they are, so the two definitions are the source's patterns for
  the names that hold no character with a meaning of its own in a pattern: the names
  made of letters, digits and underscores (\<open>plain_name\<close>), as are the five names that
  \<^verbatim>\<open>parse_sql_file\<close> passes.
\<close>

definition plain_name :: "string \<Rightarrow> bool" where
  "plain_name t = (\<forall>c \<in> set t. c \<in> set ''abcdefghijklmnopqrstuvwxyzABCDEFGHIJKLMNOPQRSTUVWXYZ0123456789_'')"

definition lits :: "string \<Rightarrow> rx list" where
  "lits w = map Lit w"

definition insert_pattern :: "string \<Rightarrow> rx list" where
  "insert_pattern table_name =
     lits (''INSERT INTO '' @ [backtick] @ table_name @ [backtick])
     @ [Lazy] @ lits ''VALUES'' @ [Spaces, GroupStart, Lazy, GroupEnd, Lit (CHR '';'')]"

definition create_pattern :: "string \<Rightarrow> rx list" where
  "create_pattern table_name =
     lits (''CREATE TABLE '' @ [backtick] @ table_name @ [backtick])
     @ [Spaces, Lit (CHR ''(''), GroupStart, Lazy, GroupEnd, Lit (CHR '')''), Spaces]
     @ lits ''ENGINE''"

section \<open>Table Materializer: \<^verbatim>\<open>SQLFileParser.extract_table_data\<close>\<close>

text \<open>
  A record is a Python dictionary from column name to value: an association list in
  insertion order, where storing under a key that is there already replaces the value
  in place (\<open>AList.update\<close>). A dataset is a list of records.
\<close>

type_synonym row_record = "(string \<times> val) list"
type_synonym dataset = "row_record list"

text \<open>
  The loop over the lines of the \<^verbatim>\<open>CREATE TABLE\<close> body. \<^verbatim>\<open>line.split('`')[1]\<close> raises
  IndexError when the split has one part only; that is the result \<open>None\<close>.
\<close>

definition index1 :: "'a list \<Rightarrow> 'a option" where
  "index1 xs = (if 1 < length xs then Some (xs ! 1) else None)"

fun column_loop :: "string list \<Rightarrow> string list \<Rightarrow> string list option" where
  "column_loop [] columns = Some columns"
| "column_loop (line0 # lines) columns =
     (let line = strip line0 in
      if startswith line [backtick] \<and> \<not> startswith line ''PRIMARY'' \<and> \<not> startswith line ''KEY''
      then (case index1 (py_split backtick line) of
              None \<Rightarrow> None
            | Some col_name \<Rightarrow> column_loop lines (columns @ [col_name]))
      else column_loop lines columns)"

definition table_columns :: "string \<Rightarrow> string \<Rightarrow> string list option" where
  "table_columns sql_content table_name =
     (case rx_search (create_pattern table_name) sql_content of
        None \<Rightarrow> Some []
      | Some (column_defs, rest) \<Rightarrow> column_loop (py_split newline column_defs) [])"

text \<open>
  \<^verbatim>\<open>row_dict\<close>: the loop \<^verbatim>\<open>for i, col in enumerate(columns): row_dict[col] = row[i]\<close>, which
  the source runs only when the row is as long as the column list.
\<close>

definition row_dict :: "string list \<Rightarrow> val list \<Rightarrow> row_record" where
  "row_dict columns row =
     fold (\<lambda>(i, col) d. AList.update col (row ! i) d) (enumerate 0 columns) []"

text \<open>The text of one match, without its first and its last parenthesis.\<close>

definition values_text :: "string \<Rightarrow> string" where
  "values_text match =
     (let v0 = strip match;
          v1 = (if startswith v0 ''('' then tl v0 else v0);
          v2 = (if endswith v1 '')'' then butlast v1 else v1)
      in v2)"

definition add_rows :: "string list \<Rightarrow> val list list \<Rightarrow> dataset \<Rightarrow> dataset" where
  "add_rows columns rws all_data =
     fold (\<lambda>row acc. if length row = length columns then acc @ [row_dict columns row] else acc)
          rws all_data"

definition materialize :: "string list \<Rightarrow> string list \<Rightarrow> dataset" where
  "materialize columns matches =
     fold (\<lambda>match all_data. add_rows columns (parse_values_string (values_text match)) all_data)
          matches []"

text \<open>
  The body of the \<^verbatim>\<open>try\<close>: \<open>None\<close> is an exception, which the \<^verbatim>\<open>except\<close> clause of
  \<^verbatim>\<open>extract_table_data\<close> turns into the empty list (the message it prints is not
  modelled).
\<close>

definition extract_body :: "string \<Rightarrow> string \<Rightarrow> dataset option" where
  "extract_body sql_content table_name =
     (let matches = findall (insert_pattern table_name) sql_content in
      if matches = [] then Some []
      else (case table_columns sql_content table_name of
              None \<Rightarrow> None
            | Some columns \<Rightarrow> Some (materialize columns matches)))"

definition extract_table_data :: "string \<Rightarrow> string \<Rightarrow> dataset" where
  "extract_table_data sql_content table_name =
     (case extract_body sql_content table_name of
        None \<Rightarrow> []
      | Some all_data \<Rightarrow> all_data)"

section \<open>Dump Loader: \<^verbatim>\<open>SQLFileParser.parse_sql_file\<close>\<close>

text \<open>
  Opening, reading and decoding the file either fails with an exception, of which
  \<open>Inl\<close> carries the text, or gives the content. The result of the function is the
  exception it raises (\<open>Inl\<close>, with its message) or the dictionary it returns.
\<close>

definition parse_sql_file :: "string + string \<Rightarrow> string + (string \<times> dataset) list" where
  "parse_sql_file file_read =
     (case file_read of
        Inl e \<Rightarrow> Inl (''Failed to parse SQL file: '' @ e)
      | Inr content \<Rightarrow>
          (let users_data = extract_table_data content ''is_user'';
               admins_data = extract_table_data content ''is_admin'';
               accounts_data = extract_table_data content ''is_account'';
               tickets_data = extract_table_data content ''is_ticket'';
               ssl_data = extract_table_data content ''is_ssl''
           in Inr [(''users'', users_data), (''admins'', admins_data),
                   (''accounts'', accounts_data), (''tickets'', tickets_data),
                   (''ssl'', ssl_data)]))"

section \<open>Notions used to state the properties\<close>

text \<open>
  The rules of the Value Normalizer as the specification words them, on a token that
  has no white space around it. A token is bounded by a pair of quote characters when
  it has at least two characters and its first and its last character are that quote
  character.
\<close>

definition bounded :: "char \<Rightarrow> string \<Rightarrow> bool" where
  "bounded q tok = (2 \<le> length tok \<and> hd tok = q \<and> last tok = q)"

definition normalizer_rules :: "string \<Rightarrow> val" where
  "normalizer_rules tok =
     (if map lower_char tok = ''null'' then None
      else if bounded squote tok then
        Some (replace [backslash, backslash] [backslash]
               (replace [backslash, squote] [squote] (inner tok)))
      else if bounded dquote tok then
        Some (replace [backslash, backslash] [backslash]
               (replace [backslash, dquote] [dquote] (inner tok)))
      else Some tok)"

text \<open>
  A character closes the quoted text opened by \<open>q\<close> when it is \<open>q\<close> and the character
  before it in the input is not a backslash; \<open>quoted_run q prev u\<close> says that no
  character of \<open>u\<close> does, \<open>prev\<close> being the character before \<open>u\<close>.
\<close>

definition closes :: "char \<Rightarrow> char option \<Rightarrow> char \<Rightarrow> bool" where
  "closes q prev c = (c = q \<and> prev \<noteq> Some backslash)"

fun quoted_run :: "char \<Rightarrow> char option \<Rightarrow> string \<Rightarrow> bool" where
  "quoted_run q prev [] = True"
| "quoted_run q prev (c # cs) = (\<not> closes q prev c \<and> quoted_run q (Some c) cs)"

text \<open>
  The Column List of a table, and the shape of a column line of the \<^verbatim>\<open>CREATE TABLE\<close> body:
  after trimming it begins with a backtick, and its name is the text after that backtick
  up to the next one (or up to the end of the line).
\<close>

definition column_list :: "string \<Rightarrow> string \<Rightarrow> string list" where
  "column_list sql_content table_name =
     (case table_columns sql_content table_name of None \<Rightarrow> [] | Some columns \<Rightarrow> columns)"

definition is_column_line :: "string \<Rightarrow> bool" where
  "is_column_line line = (line \<noteq> [] \<and> hd line = backtick)"

definition column_name :: "string \<Rightarrow> string" where
  "column_name line = takeWhile (\<lambda>c. c \<noteq> backtick) (tl line)"

text \<open>The table names that \<^verbatim>\<open>parse_sql_file\<close> asks for, and the keys under which it returns
  their datasets.\<close>

definition requested_tables :: "string list" where
  "requested_tables = [''is_user'', ''is_admin'', ''is_account'', ''is_ticket'', ''is_ssl'']"

definition result_keys :: "string list" where
  "result_keys = [''users'', ''admins'', ''accounts'', ''tickets'', ''ssl'']"

text \<open>
  Text compared with letter case ignored: \<open>ci_eq\<close> is equality, \<open>ci_prefix w s\<close> says
  that \<open>s\<close> begins with \<open>w\<close>. \<open>nowhere P pre s\<close> says that in the text \<open>pre @ s\<close> no
  position inside \<open>pre\<close> is the start of a text with the property \<open>P\<close>.
\<close>

definition ci_eq :: "string \<Rightarrow> string \<Rightarrow> bool" where
  "ci_eq a b = (map lower_char a = map lower_char b)"

fun ci_prefix :: "string \<Rightarrow> string \<Rightarrow> bool" where
  "ci_prefix [] s = True"
| "ci_prefix (c # w) [] = False"
| "ci_prefix (c # w) (x # xs) = (lower_char x = lower_char c \<and> ci_prefix w xs)"

fun nowhere :: "(string \<Rightarrow> bool) \<Rightarrow> string \<Rightarrow> string \<Rightarrow> bool" where
  "nowhere P [] s = True"
| "nowhere P (x # xs) s = (\<not> P (x # xs @ s) \<and> nowhere P xs s)"

text \<open>
  The first words of the two kinds of statement for a table, and the end of a
  \<^verbatim>\<open>CREATE TABLE\<close> body: a closing parenthesis, white space or none, and \<^verbatim>\<open>ENGINE\<close>.
\<close>

definition insert_head :: "string \<Rightarrow> string" where
  "insert_head table_name = ''INSERT INTO '' @ [backtick] @ table_name @ [backtick]"

definition create_head :: "string \<Rightarrow> string" where
  "create_head table_name = ''CREATE TABLE '' @ [backtick] @ table_name @ [backtick]"

fun block_end :: "string \<Rightarrow> bool" where
  "block_end [] = False"
| "block_end (x # r) = (x = CHR '')'' \<and> ci_prefix ''ENGINE'' (dropWhile isspace r))"

text \<open>
  The synthetic dump of the round-trip property: a \<^verbatim>\<open>CREATE TABLE\<close> statement with one
  line for each column, and \<^verbatim>\<open>INSERT\<close> statements, each with the tuples of its rows. A
  null value is written \<^verbatim>\<open>NULL\<close>; a text is written between single quotes, with a
  backslash put before each backslash and each single quote of it. \<open>join\<close> is
  \<^verbatim>\<open>sep.join(parts)\<close>.
\<close>

fun join :: "string \<Rightarrow> string list \<Rightarrow> string" where
  "join sep [] = []"
| "join sep [x] = x"
| "join sep (x # y # ys) = x @ sep @ join sep (y # ys)"

fun escape :: "string \<Rightarrow> string" where
  "escape [] = []"
| "escape (c # s) = (if c = backslash \<or> c = squote then backslash # c # escape s else c # escape s)"

fun sql_literal :: "val \<Rightarrow> string" where
  "sql_literal None = ''NULL''"
| "sql_literal (Some s) = [squote] @ escape s @ [squote]"

definition row_text :: "val list \<Rightarrow> string" where
  "row_text row = join '','' (map sql_literal row)"

definition tuple_text :: "val list \<Rightarrow> string" where
  "tuple_text row = ''('' @ row_text row @ '')''"

definition column_line :: "string \<Rightarrow> string" where
  "column_line c = ''  '' @ [backtick] @ c @ [backtick] @ '' text''"

definition create_stmt :: "string \<Rightarrow> string list \<Rightarrow> string" where
  "create_stmt t cols =
     ''CREATE TABLE '' @ [backtick] @ t @ [backtick] @ '' ('' @ [newline]
     @ join ('','' @ [newline]) (map column_line cols) @ [newline]
     @ '') ENGINE=InnoDB;'' @ [newline]"

definition insert_stmt :: "string \<Rightarrow> val list list \<Rightarrow> string" where
  "insert_stmt t rws =
     ''INSERT INTO '' @ [backtick] @ t @ [backtick] @ '' VALUES ''
     @ join '','' (map tuple_text rws) @ '';'' @ [newline]"

definition synthetic_dump :: "string \<Rightarrow> string list \<Rightarrow> val list list list \<Rightarrow> string" where
  "synthetic_dump t cols stmts = create_stmt t cols @ concat (map (insert_stmt t) stmts)"

text \<open>The values for which the round trip is stated: a text holds no semicolon and
  does not end with a backslash.\<close>

fun wf_value :: "val \<Rightarrow> bool" where
  "wf_value None = True"
| "wf_value (Some s) = (CHR '';'' \<notin> set s \<and> (s = [] \<or> last s \<noteq> backslash))"

text \<open>A text with each of its backslashes written twice.\<close>

fun double_backslash :: "string \<Rightarrow> string" where
  "double_backslash [] = []"
| "double_backslash (c # s) = (if c = backslash then backslash # c # double_backslash s
                               else c # double_backslash s)"

section \<open>Auxiliary facts\<close>

subsection \<open>Strings\<close>

lemma strip_core:
  assumes a: "\<forall>c \<in> set a. isspace c" and b: "\<forall>c \<in> set b. isspace c"
    and m: "m = [] \<or> (\<not> isspace (hd m) \<and> \<not> isspace (last m))"
  shows "strip (a @ m @ b) = m"
proof (cases "m = []")
  case True
  have e: "dropWhile isspace (a @ b) = []"
    using a b by (simp add: dropWhile_eq_Nil_conv)
  show ?thesis unfolding strip_def True append_Nil e by simp
next
  case False
  with m have h: "\<not> isspace (hd m)" and l: "\<not> isspace (last m)" by auto
  from False h have 1: "dropWhile isspace (a @ m @ b) = m @ b"
    using a by (cases m) (auto simp: dropWhile_append)
  from False l have 2: "dropWhile isspace (rev b @ rev m) = rev m"
    using b by (cases m rule: rev_cases) (auto simp: dropWhile_append)
  show ?thesis by (simp add: strip_def 1 2)
qed

lemma strip_decomp:
  "\<exists>a m b. s = a @ m @ b \<and> (\<forall>c \<in> set a. isspace c) \<and> (\<forall>c \<in> set b. isspace c)
     \<and> (m = [] \<or> (\<not> isspace (hd m) \<and> \<not> isspace (last m))) \<and> strip s = m"
proof -
  define a where "a = takeWhile isspace s"
  define t where "t = dropWhile isspace s"
  define b where "b = rev (takeWhile isspace (rev t))"
  define m where "m = rev (dropWhile isspace (rev t))"
  have s: "s = a @ t" by (simp add: a_def t_def)
  have t: "t = m @ b"
  proof -
    have "m @ b = rev (takeWhile isspace (rev t) @ dropWhile isspace (rev t))"
      by (simp only: m_def b_def rev_append)
    also have "\<dots> = t"
      by (simp only: takeWhile_dropWhile_id rev_rev_ident)
    finally show ?thesis by simp
  qed
  have sa: "\<forall>c \<in> set a. isspace c" by (auto simp: a_def dest: set_takeWhileD)
  have sb: "\<forall>c \<in> set b. isspace c" by (auto simp: b_def dest: set_takeWhileD)
  have ht: "t \<noteq> [] \<Longrightarrow> \<not> isspace (hd t)" unfolding t_def by (rule hd_dropWhile)
  have lm: "m \<noteq> [] \<Longrightarrow> \<not> isspace (last m)"
    unfolding m_def using hd_dropWhile [of isspace "rev t"] by (simp add: last_rev)
  have hm: "m \<noteq> [] \<Longrightarrow> \<not> isspace (hd m)" using ht t by (cases m) auto
  have "strip s = m" by (simp add: strip_def m_def t_def)
  with s t sa sb lm hm show ?thesis by blast
qed

lemma strip_strip: "strip (strip s) = strip s"
proof -
  obtain a m b where "m = [] \<or> (\<not> isspace (hd m) \<and> \<not> isspace (last m))" "strip s = m"
    using strip_decomp [of s] by blast
  then show ?thesis using strip_core [of "[]" "[]" m] by simp
qed

lemma upper_char_eq_iff:
  "upper_char a = CHR ''N'' \<longleftrightarrow> lower_char a = CHR ''n''"
  "upper_char a = CHR ''U'' \<longleftrightarrow> lower_char a = CHR ''u''"
  "upper_char a = CHR ''L'' \<longleftrightarrow> lower_char a = CHR ''l''"
  by (auto simp: upper_char_def lower_char_def split: if_splits)

lemma upper_NULL_iff: "upper v = ''NULL'' \<longleftrightarrow> map lower_char v = ''null''"
proof -
  have "upper v = ''NULL'' \<longleftrightarrow> (\<exists>a b c d. v = [a, b, c, d] \<and> upper_char a = CHR ''N''
          \<and> upper_char b = CHR ''U'' \<and> upper_char c = CHR ''L'' \<and> upper_char d = CHR ''L'')"
    by (auto simp: upper_def map_eq_Cons_conv)
  also have "\<dots> \<longleftrightarrow> map lower_char v = ''null''"
    by (auto simp: upper_char_eq_iff map_eq_Cons_conv)
  finally show ?thesis .
qed

lemma startswith_char: "startswith v [q] \<longleftrightarrow> v \<noteq> [] \<and> hd v = q"
  by (cases v) (auto simp: startswith_def)

lemma endswith_char: "endswith v [q] \<longleftrightarrow> v \<noteq> [] \<and> last v = q"
  by (cases v rule: rev_cases) (auto simp: endswith_def)

subsection \<open>The scan inside quotes\<close>

lemma scan_quoted_run:
  "in_quotes st \<Longrightarrow> quote_char st = Some q \<Longrightarrow> quoted_run q prev u \<Longrightarrow>
   scan prev (u @ cs) st
     = scan (last (prev # map Some u)) cs (st\<lparr>current_value := current_value st @ u\<rparr>)"
proof (induction u arbitrary: prev st)
  case Nil
  then show ?case by simp
next
  case (Cons c u)
  let ?st = "st\<lparr>current_value := current_value st @ [c]\<rparr>"
  from Cons.prems have nc: "c \<noteq> q \<or> prev = Some backslash"
    by (auto simp: closes_def)
  have "scan prev ((c # u) @ cs) st = scan (Some c) (u @ cs) ?st"
    using Cons.prems(1,2) nc by (auto simp: scan.simps(2) Let_def)
  also have "\<dots> = scan (last (Some c # map Some u)) cs (?st\<lparr>current_value := current_value ?st @ u\<rparr>)"
    using Cons.prems by (intro Cons.IH) auto
  finally show ?case by simp
qed

lemma scan_quoted_step:
  "in_quotes st \<Longrightarrow> quote_char st = Some q \<Longrightarrow>
   scan prev (c # cs) st
     = scan (Some c) cs (st\<lparr>current_value := current_value st @ [c],
                           in_quotes := \<not> closes q prev c,
                           quote_char := (if closes q prev c then None else Some q)\<rparr>)"
  by (cases st) (auto simp: scan.simps(2) closes_def Let_def)

subsection \<open>Columns, records and datasets\<close>

lemma py_split_takeWhile:
  "\<exists>ws. py_split c s = takeWhile (\<lambda>x. x \<noteq> c) s # ws"
  by (induction s) auto

lemma index1_py_split:
  "index1 (py_split c (c # s)) = Some (takeWhile (\<lambda>x. x \<noteq> c) s)"
  using py_split_takeWhile [of c s] by (auto simp: index1_def)

lemma column_loop_eq:
  "column_loop lines columns
     = Some (columns @ map column_name (filter is_column_line (map strip lines)))"
proof (induction lines arbitrary: columns)
  case Nil
  then show ?case by simp
next
  case (Cons l lines)
  show ?case
  proof (cases "is_column_line (strip l)")
    case True
    then obtain r where r: "strip l = backtick # r"
      by (cases "strip l") (auto simp: is_column_line_def)
    have np: "\<not> startswith (backtick # r) ''PRIMARY''" "\<not> startswith (backtick # r) ''KEY''"
      by (simp_all add: startswith_def)
    show ?thesis
      using True r np Cons.IH
      by (simp add: Let_def startswith_char index1_py_split column_name_def del: py_split.simps)
  next
    case False
    then have ns: "\<not> startswith (strip l) [backtick]"
      by (simp add: startswith_char is_column_line_def)
    show ?thesis
      using False ns Cons.IH by (simp add: Let_def)
  qed
qed

lemma table_columns_Some: "table_columns sql t = Some (column_list sql t)"
  by (auto simp: table_columns_def column_list_def column_loop_eq split: option.splits)

lemma fold_enumerate_zip:
  "n + length cols \<le> length row \<Longrightarrow>
   fold (\<lambda>(i, col) d. AList.update col (row ! i) d) (enumerate n cols) d
     = fold (\<lambda>(k, v). AList.update k v) (zip cols (drop n row)) d"
proof (induction cols arbitrary: n d)
  case Nil
  then show ?case by simp
next
  case (Cons c cols)
  then have n: "n < length row" by simp
  then have dr: "drop n row = row ! n # drop (Suc n) row"
    by (simp add: Cons_nth_drop_Suc)
  show ?case using Cons.IH [of "Suc n"] Cons.prems by (simp add: dr)
qed

lemma row_dict_updates:
  "length row = length columns \<Longrightarrow> row_dict columns row = AList.updates columns row []"
  using fold_enumerate_zip [of 0 columns row "[]"]
  by (simp add: row_dict_def AList.updates_def)

lemma update_fresh: "k \<notin> fst ` set al \<Longrightarrow> AList.update k v al = al @ [(k, v)]"
  by (induction al) auto

lemma updates_distinct:
  "distinct ks \<Longrightarrow> set ks \<inter> fst ` set al = {} \<Longrightarrow> length ks = length vs \<Longrightarrow>
   AList.updates ks vs al = al @ zip ks vs"
proof (induction ks arbitrary: vs al)
  case Nil
  then show ?case by simp
next
  case (Cons k ks)
  then obtain v vs' where vs: "vs = v # vs'" by (cases vs) auto
  have "AList.update k v al = al @ [(k, v)]"
    using Cons.prems by (intro update_fresh) auto
  moreover have "AList.updates ks vs' (al @ [(k, v)]) = (al @ [(k, v)]) @ zip ks vs'"
    using Cons.prems vs by (intro Cons.IH) auto
  ultimately show ?case by (simp add: vs AList.updates_def)
qed

lemma row_dict_zip:
  "length row = length columns \<Longrightarrow> distinct columns \<Longrightarrow> row_dict columns row = zip columns row"
  using updates_distinct [of columns "[]" row] by (simp add: row_dict_updates)

lemma add_rows_eq:
  "add_rows columns rws acc
     = acc @ map (row_dict columns) (filter (\<lambda>row. length row = length columns) rws)"
  unfolding add_rows_def by (induction rws arbitrary: acc) auto

lemma materialize_eq:
  "materialize columns matches
     = map (row_dict columns)
         (filter (\<lambda>row. length row = length columns)
            (concat (map (\<lambda>m. parse_values_string (values_text m)) matches)))"
proof -
  have "fold (\<lambda>m all_data. add_rows columns (parse_values_string (values_text m)) all_data) matches acc
          = acc @ map (row_dict columns)
              (filter (\<lambda>row. length row = length columns)
                 (concat (map (\<lambda>m. parse_values_string (values_text m)) matches)))" for acc
    by (induction matches arbitrary: acc) (auto simp: add_rows_eq)
  then show ?thesis by (simp add: materialize_def)
qed

lemma extract_body_eq:
  "extract_body sql t
     = Some (materialize (column_list sql t) (findall (insert_pattern t) sql))"
  by (simp add: extract_body_def Let_def table_columns_Some materialize_def)

lemma extract_table_data_eq:
  "extract_table_data sql t = materialize (column_list sql t) (findall (insert_pattern t) sql)"
  by (simp add: extract_table_data_def extract_body_eq)

subsection \<open>The matcher\<close>

lemma ci_eq_prefix: "ci_eq w' w \<Longrightarrow> ci_prefix w (w' @ s)"
  by (induction w arbitrary: w') (auto simp: ci_eq_def)

lemma ci_eq_length: "ci_eq w' w \<Longrightarrow> length w' = length w"
  unfolding ci_eq_def by (metis length_map)

lemma nowhere_mono: "nowhere P pre s \<Longrightarrow> (\<And>x. Q x \<Longrightarrow> P x) \<Longrightarrow> nowhere Q pre s"
  by (induction pre) auto

lemma rx_match_lits:
  "ci_eq w' w \<Longrightarrow>
   rx_match (lits w @ p) (w' @ s) g cap = rx_match p s g (if g then cap @ w' else cap)"
proof (induction w arbitrary: w' cap)
  case Nil
  then show ?case by (simp add: ci_eq_def lits_def)
next
  case (Cons c w)
  then obtain x v where w': "w' = x # v" and x: "lower_char x = lower_char c" and v: "ci_eq v w"
    by (cases w') (auto simp: ci_eq_def)
  show ?case using Cons.IH [OF v, of "if g then cap @ [x] else cap"] x
    by (simp add: w' lits_def)
qed

lemma rx_match_lits_fail:
  "\<not> ci_prefix w s \<Longrightarrow> rx_match (lits w @ p) s g cap = None"
proof (induction w arbitrary: s cap)
  case Nil
  then show ?case by simp
next
  case (Cons c w)
  then show ?case by (cases s) (auto simp: lits_def)
qed

lemma rx_match_lazy_hit:
  "rx_match p s g cap = Some r \<Longrightarrow> rx_match (Lazy # p) s g cap = Some r"
  by simp

lemma rx_match_lazy_skip:
  "(\<And>k. k < length u \<Longrightarrow>
      rx_match p (drop k u @ s) g (if g then cap @ take k u else cap) = None) \<Longrightarrow>
   rx_match (Lazy # p) (u @ s) g cap = rx_match (Lazy # p) s g (if g then cap @ u else cap)"
proof (induction u arbitrary: cap)
  case Nil
  show ?case by (cases g) (simp_all del: rx_match.simps)
next
  case (Cons x u)
  have 0: "rx_match p (x # u @ s) g cap = None"
    using Cons.prems [of 0] by (cases g) simp_all
  have "rx_match p (drop k u @ s) g
          (if g then (if g then cap @ [x] else cap) @ take k u else (if g then cap @ [x] else cap)) = None"
    if "k < length u" for k
    using Cons.prems [of "Suc k"] that by (cases g) simp_all
  from Cons.IH [of "if g then cap @ [x] else cap", OF this]
  show ?case using 0 by (cases g) simp_all
qed

lemma rx_match_spaces_stop:
  "s = [] \<or> \<not> isspace (hd s) \<Longrightarrow> rx_match (Spaces # p) s g cap = rx_match p s g cap"
  by (cases s) auto

lemma rx_match_spaces:
  "\<forall>c \<in> set ws. isspace c \<Longrightarrow> s = [] \<or> \<not> isspace (hd s) \<Longrightarrow>
   rx_match p s g (if g then cap @ ws else cap) = Some r \<Longrightarrow>
   rx_match (Spaces # p) (ws @ s) g cap = Some r"
proof (induction ws arbitrary: cap)
  case Nil
  then show ?case by (cases g) (simp_all add: rx_match_spaces_stop)
next
  case (Cons x ws)
  have "rx_match (Spaces # p) (ws @ s) g (if g then cap @ [x] else cap) = Some r"
    using Cons.prems by (intro Cons.IH) auto
  then show ?case using Cons.prems(1) by simp
qed

lemma rx_match_spaces_lits_fail:
  assumes "\<not> ci_prefix (c # w) (dropWhile isspace s)"
    and "\<And>x. isspace x \<Longrightarrow> lower_char x \<noteq> lower_char c"
  shows "rx_match (Spaces # lits (c # w) @ p) s g cap = None"
  using assms(1)
proof (induction s arbitrary: cap)
  case Nil
  then show ?case using rx_match_lits_fail [of "c # w" "[]" p g cap] by simp
next
  case (Cons x s)
  show ?case
  proof (cases "isspace x")
    case True
    then have "rx_match (Spaces # lits (c # w) @ p) s g (if g then cap @ [x] else cap) = None"
      using Cons by simp
    moreover have "rx_match (lits (c # w) @ p) (x # s) g cap = None"
      using assms(2) [OF True] by (simp add: lits_def)
    ultimately show ?thesis using True by simp
  next
    case False
    then show ?thesis
      using Cons.prems rx_match_lits_fail [of "c # w" "x # s" p g cap] by simp
  qed
qed

lemma rx_search_hit:
  "rx_match p s False [] = Some r \<Longrightarrow> rx_search p s = Some r"
  by (cases s) auto

lemma rx_search_skip:
  "nowhere (\<lambda>x. rx_match p x False [] \<noteq> None) pre s \<Longrightarrow> rx_search p (pre @ s) = rx_search p s"
  by (induction pre) (auto split: option.splits)

lemma findall_hit:
  "rx_match p s False [] = Some (grp, rest) \<Longrightarrow> length rest < length s \<Longrightarrow>
   findall p s = grp # findall p rest"
  by (subst findall.simps) simp

lemma findall_Nil: "rx_match p [] False [] = None \<Longrightarrow> findall p [] = []"
  by (subst findall.simps) simp

lemma findall_skip:
  "nowhere (\<lambda>x. rx_match p x False [] \<noteq> None) pre s \<Longrightarrow> findall p (pre @ s) = findall p s"
proof (induction pre)
  case Nil
  then show ?case by simp
next
  case (Cons x pre)
  then have "rx_match p (x # pre @ s) False [] = None"
    by (cases "rx_match p (x # pre @ s) False []") auto
  then have "findall p ((x # pre) @ s) = findall p (pre @ s)"
    by (subst findall.simps) simp
  with Cons show ?case by simp
qed

subsection \<open>The two patterns on a statement\<close>

lemma nowhere_drop: "nowhere P pre s \<Longrightarrow> k < length pre \<Longrightarrow> \<not> P (drop k pre @ s)"
proof (induction pre arbitrary: k)
  case Nil
  then show ?case by simp
next
  case (Cons x pre)
  then show ?case by (cases k) auto
qed

lemma lower_char_punct:
  "lower_char x = lower_char (CHR '';'') \<longleftrightarrow> x = CHR '';''"
  "lower_char x = lower_char (CHR '')'') \<longleftrightarrow> x = CHR '')''"
  "lower_char x = lower_char (CHR ''('') \<longleftrightarrow> x = CHR ''(''"
  by (auto simp: lower_char_def split: if_splits)

lemma isspace_not_letter:
  "isspace x \<Longrightarrow> lower_char x \<noteq> lower_char (CHR ''E'')"
  "isspace x \<Longrightarrow> lower_char x \<noteq> lower_char (CHR ''V'')"
  by (auto simp: isspace_def lower_char_def)

lemma group_until:
  assumes fail: "\<And>k. k < length u \<Longrightarrow> rx_match q (drop k u @ s) False (take k u) = None"
    and hit: "rx_match q s False u = Some r"
  shows "rx_match (GroupStart # Lazy # GroupEnd # q) (u @ s) g cap = Some r"
proof -
  have "rx_match (Lazy # GroupEnd # q) (u @ s) True [] = rx_match (Lazy # GroupEnd # q) s True ([] @ u)"
    using rx_match_lazy_skip [of u "GroupEnd # q" s True "[]"] fail by simp
  also have "\<dots> = Some r"
    using hit by simp
  finally show ?thesis by simp
qed

lemma insert_tail:
  assumes ws: "\<forall>c \<in> set ws. isspace c" and u: "u = [] \<or> \<not> isspace (hd u)"
    and semi: "CHR '';'' \<notin> set u"
  shows "rx_match [Spaces, GroupStart, Lazy, GroupEnd, Lit (CHR '';'')] (ws @ u @ CHR '';'' # rest) False []
           = Some (u, rest)"
proof -
  have fail: "rx_match [Lit (CHR '';'')] (drop k u @ CHR '';'' # rest) False (take k u) = None"
    if "k < length u" for k
  proof -
    from that have d: "drop k u = u ! k # drop (Suc k) u" by (simp add: Cons_nth_drop_Suc)
    from that semi have "u ! k \<noteq> CHR '';''" by (metis nth_mem)
    then show ?thesis by (simp add: d lower_char_punct)
  qed
  have hit: "rx_match [Lit (CHR '';'')] (CHR '';'' # rest) False u = Some (u, rest)"
    by simp
  have g: "rx_match [GroupStart, Lazy, GroupEnd, Lit (CHR '';'')] (u @ CHR '';'' # rest) False []
             = Some (u, rest)"
    using group_until [of u "[Lit (CHR '';'')]" "CHR '';'' # rest" "(u, rest)" False "[]"] fail hit
    by simp
  have ns: "u @ CHR '';'' # rest = [] \<or> \<not> isspace (hd (u @ CHR '';'' # rest))"
    using u by (cases u) (auto simp: isspace_def)
  show ?thesis
    using rx_match_spaces [OF ws ns, of "[GroupStart, Lazy, GroupEnd, Lit (CHR '';'')]" False "[]" "(u, rest)"] g
    by simp
qed

lemma insert_match:
  assumes hd: "ci_eq h (insert_head t)"
    and mid: "nowhere (ci_prefix ''VALUES'') mid (vals @ ws @ u @ CHR '';'' # rest)"
    and vals: "ci_eq vals ''VALUES''"
    and ws: "\<forall>c \<in> set ws. isspace c" and u: "u = [] \<or> \<not> isspace (hd u)"
    and semi: "CHR '';'' \<notin> set u"
  shows "rx_match (insert_pattern t) (h @ mid @ vals @ ws @ u @ CHR '';'' # rest) False []
           = Some (u, rest)"
proof -
  let ?tail = "[Spaces, GroupStart, Lazy, GroupEnd, Lit (CHR '';'')]"
  let ?s3 = "ws @ u @ CHR '';'' # rest"
  have 3: "rx_match (lits ''VALUES'' @ ?tail) (vals @ ?s3) False [] = Some (u, rest)"
    using rx_match_lits [OF vals, of ?tail ?s3 False "[]"] insert_tail [OF ws u semi, of rest]
    by simp
  have fail: "rx_match (lits ''VALUES'' @ ?tail) (drop k mid @ vals @ ?s3) False [] = None"
    if "k < length mid" for k
    using nowhere_drop [OF mid that] by (intro rx_match_lits_fail) simp
  have 2: "rx_match (Lazy # lits ''VALUES'' @ ?tail) (mid @ vals @ ?s3) False [] = Some (u, rest)"
    using rx_match_lazy_skip [of mid "lits ''VALUES'' @ ?tail" "vals @ ?s3" False "[]"] fail
      rx_match_lazy_hit [OF 3]
    by simp
  have "rx_match (lits (insert_head t) @ Lazy # lits ''VALUES'' @ ?tail) (h @ mid @ vals @ ?s3) False []
          = Some (u, rest)"
    using rx_match_lits [OF hd, of "Lazy # lits ''VALUES'' @ ?tail" "mid @ vals @ ?s3" False "[]"] 2
    by simp
  then show ?thesis by (simp add: insert_pattern_def insert_head_def)
qed

lemma insert_no_match:
  "\<not> ci_prefix (insert_head t) s \<Longrightarrow> rx_match (insert_pattern t) s False [] = None"
  using rx_match_lits_fail [of "insert_head t" s "Lazy # lits ''VALUES'' @ [Spaces, GroupStart, Lazy, GroupEnd, Lit (CHR '';'')]" False "[]"]
  by (simp add: insert_pattern_def insert_head_def)

lemma create_no_match:
  "\<not> ci_prefix (create_head t) s \<Longrightarrow> rx_match (create_pattern t) s False [] = None"
  using rx_match_lits_fail [of "create_head t" s "[Spaces, Lit (CHR ''(''), GroupStart, Lazy, GroupEnd, Lit (CHR '')''), Spaces] @ lits ''ENGINE''" False "[]"]
  by (simp add: create_pattern_def create_head_def)

lemma create_match:
  assumes hd: "ci_eq h (create_head t)"
    and ws: "\<forall>c \<in> set ws. isspace c"
    and body: "nowhere block_end body (CHR '')'' # ws' @ eng @ rest)"
    and ws': "\<forall>c \<in> set ws'. isspace c"
    and eng: "ci_eq eng ''ENGINE''"
  shows "rx_match (create_pattern t) (h @ ws @ CHR ''('' # body @ CHR '')'' # ws' @ eng @ rest) False []
           = Some (body, rest)"
proof -
  let ?q = "Lit (CHR '')'') # Spaces # lits ''ENGINE''"
  let ?s = "CHR '')'' # ws' @ eng @ rest"
  have e: "rx_match (lits ''ENGINE'') (eng @ rest) False body = Some (body, rest)"
    using rx_match_lits [OF eng, of "[]" rest False body] by simp
  have ns: "eng @ rest = [] \<or> \<not> isspace (hd (eng @ rest))"
  proof -
    from eng obtain x v where "eng = x # v" "lower_char x = lower_char (CHR ''E'')"
      by (cases eng) (auto simp: ci_eq_def)
    then show ?thesis using isspace_not_letter(1) [of x] by auto
  qed
  have hit: "rx_match ?q ?s False body = Some (body, rest)"
    using rx_match_spaces [OF ws' ns, of "lits ''ENGINE''" False body "(body, rest)"] e
    by simp
  have fail: "rx_match ?q (drop k body @ ?s) False (take k body) = None" if "k < length body" for k
  proof -
    from that obtain x r where d: "drop k body @ ?s = x # r"
      by (cases "drop k body") auto
    with nowhere_drop [OF body that] have nb: "x \<noteq> CHR '')'' \<or> \<not> ci_prefix ''ENGINE'' (dropWhile isspace r)"
      by simp
    show ?thesis
    proof (cases "x = CHR '')''")
      case True
      with nb have "\<not> ci_prefix (CHR ''E'' # ''NGINE'') (dropWhile isspace r)" by simp
      then have "rx_match (Spaces # lits (CHR ''E'' # ''NGINE'') @ []) r False (take k body) = None"
        by (intro rx_match_spaces_lits_fail isspace_not_letter(1))
      then show ?thesis unfolding d using True by simp
    next
      case False
      then show ?thesis unfolding d by (simp add: lower_char_punct)
    qed
  qed
  have g: "rx_match (GroupStart # Lazy # GroupEnd # ?q) (body @ ?s) False [] = Some (body, rest)"
    using group_until [of body ?q ?s "(body, rest)" False "[]"] fail hit by blast
  have p: "rx_match (Lit (CHR ''('') # GroupStart # Lazy # GroupEnd # ?q) (CHR ''('' # body @ ?s) False []
             = Some (body, rest)"
    using g by simp
  have ns2: "CHR ''('' # body @ ?s = [] \<or> \<not> isspace (hd (CHR ''('' # body @ ?s))"
    by (simp add: isspace_def)
  have sp: "rx_match (Spaces # Lit (CHR ''('') # GroupStart # Lazy # GroupEnd # ?q)
              (ws @ CHR ''('' # body @ ?s) False [] = Some (body, rest)"
    using rx_match_spaces [OF ws ns2, of "Lit (CHR ''('') # GroupStart # Lazy # GroupEnd # ?q" False "[]" "(body, rest)"] p
    by simp
  have "rx_match (lits (create_head t) @ Spaces # Lit (CHR ''('') # GroupStart # Lazy # GroupEnd # ?q)
          (h @ ws @ CHR ''('' # body @ ?s) False [] = Some (body, rest)"
    using rx_match_lits [OF hd, of "Spaces # Lit (CHR ''('') # GroupStart # Lazy # GroupEnd # ?q"
        "ws @ CHR ''('' # body @ ?s" False "[]"] sp
    by simp
  then show ?thesis by (simp add: create_pattern_def create_head_def)
qed

lemma nowhere_spaces:
  "\<forall>c \<in> set ws. isspace c \<Longrightarrow> nowhere (ci_prefix ''VALUES'') ws s"
  by (induction ws) (auto dest: isspace_not_letter(2))

lemma insert_findall:
  assumes "ci_eq h (insert_head t)"
    and "nowhere (ci_prefix ''VALUES'') mid (vals @ ws @ u @ CHR '';'' # rest)"
    and "ci_eq vals ''VALUES''"
    and "\<forall>c \<in> set ws. isspace c" and "u = [] \<or> \<not> isspace (hd u)"
    and "CHR '';'' \<notin> set u"
  shows "findall (insert_pattern t) (h @ mid @ vals @ ws @ u @ CHR '';'' # rest)
           = u # findall (insert_pattern t) rest"
  using insert_match [OF assms]
  by (intro findall_hit) simp_all

lemma create_search:
  assumes pre: "nowhere (ci_prefix (create_head t)) pre (h @ ws @ CHR ''('' # body @ CHR '')'' # ws' @ eng @ rest)"
    and blk: "ci_eq h (create_head t)" "\<forall>c \<in> set ws. isspace c"
      "nowhere block_end body (CHR '')'' # ws' @ eng @ rest)"
      "\<forall>c \<in> set ws'. isspace c" "ci_eq eng ''ENGINE''"
  shows "rx_search (create_pattern t) (pre @ h @ ws @ CHR ''('' # body @ CHR '')'' # ws' @ eng @ rest)
           = Some (body, rest)"
proof -
  have "nowhere (\<lambda>x. rx_match (create_pattern t) x False [] \<noteq> None) pre
          (h @ ws @ CHR ''('' # body @ CHR '')'' # ws' @ eng @ rest)"
  proof (rule nowhere_mono [OF pre])
    fix x assume "rx_match (create_pattern t) x False [] \<noteq> None"
    then show "ci_prefix (create_head t) x"
      using create_no_match [of t x] by (cases "ci_prefix (create_head t) x") auto
  qed
  then show ?thesis
    using rx_search_skip [of "create_pattern t" pre] rx_search_hit [OF create_match [OF blk]]
    by simp
qed

subsection \<open>Writing a value and reading it back\<close>

lemma replace2_Nil: "replace [a, b] new [] = []"
  by (subst replace.simps) simp

lemma replace2_hit: "replace [a, b] new (a # b # s) = new @ replace [a, b] new s"
  by (subst replace.simps) simp

lemma replace2_miss:
  "\<not> prefix [a, b] (x # s) \<Longrightarrow> replace [a, b] new (x # s) = x # replace [a, b] new s"
  by (subst replace.simps) auto

lemma escape_not_squote: "escape s = [] \<or> hd (escape s) \<noteq> squote"
  by (cases s) auto

lemma unescape_quote: "replace [backslash, squote] [squote] (escape s) = double_backslash s"
proof (induction s)
  case Nil
  show ?case by (simp add: replace2_Nil)
next
  case (Cons c s)
  show ?case
  proof (cases "c = squote")
    case True
    then show ?thesis using Cons by (simp add: replace2_hit)
  next
    case False
    note nq = this
    show ?thesis
    proof (cases "c = backslash")
      case True
      have 1: "\<not> prefix [backslash, squote] (backslash # backslash # escape s)" by simp
      have 2: "\<not> prefix [backslash, squote] (backslash # escape s)"
        using escape_not_squote [of s] by (cases "escape s") auto
      show ?thesis using True Cons
        by (simp add: replace2_miss [OF 1] replace2_miss [OF 2])
    next
      case False
      then have "\<not> prefix [backslash, squote] (c # escape s)" by simp
      then show ?thesis using False nq Cons by (simp add: replace2_miss)
    qed
  qed
qed

lemma unescape_backslash: "replace [backslash, backslash] [backslash] (double_backslash s) = s"
proof (induction s)
  case Nil
  show ?case by (simp add: replace2_Nil)
next
  case (Cons c s)
  show ?case
  proof (cases "c = backslash")
    case True
    then show ?thesis using Cons by (simp add: replace2_hit)
  next
    case False
    then have "\<not> prefix [backslash, backslash] (c # double_backslash s)" by simp
    then show ?thesis using False Cons by (simp add: replace2_miss)
  qed
qed

lemma strip_id: "s = [] \<or> (\<not> isspace (hd s) \<and> \<not> isspace (last s)) \<Longrightarrow> strip s = s"
  using strip_core [of "[]" "[]" s] by simp

lemma sql_literal_ends:
  "sql_literal v \<noteq> []" "\<not> isspace (hd (sql_literal v))" "\<not> isspace (last (sql_literal v))"
  by (cases v; simp add: isspace_def)+

lemma strip_sql_literal: "strip (sql_literal v) = sql_literal v"
  by (rule strip_id) (simp add: sql_literal_ends)

lemma clean_sql_literal: "clean_value (sql_literal v) = v"
proof (cases v)
  case None
  have "clean_value ''NULL'' = None" by code_simp
  with None show ?thesis by simp
next
  case (Some s)
  let ?l = "squote # escape s @ [squote]"
  have up: "upper ?l \<noteq> ''NULL''" by (simp add: upper_def upper_char_def)
  have "clean_value ?l = Some s"
    using strip_sql_literal [of "Some s"] up
    by (simp add: clean_value_def Let_def startswith_char endswith_char inner_def
          unescape_quote unescape_backslash)
  with Some show ?thesis by simp
qed

subsection \<open>The scan of written tuples\<close>

lemma scan_prev_irrelevant: "\<not> in_quotes st \<Longrightarrow> scan p s st = scan p' s st"
  by (cases s) (simp_all add: scan.simps(2))

lemma quoted_run_escape: "quoted_run squote prev (escape s)"
  by (induction s arbitrary: prev) (auto simp: closes_def)

lemma escape_Nil_iff: "escape s = [] \<longleftrightarrow> s = []"
  by (cases s) auto

lemma last_escape: "s \<noteq> [] \<Longrightarrow> last s \<noteq> backslash \<Longrightarrow> last (escape s) \<noteq> backslash"
  by (induction s) (auto simp: escape_Nil_iff split: if_splits)

lemma closes_after_escape:
  "s = [] \<or> last s \<noteq> backslash \<Longrightarrow>
   closes squote (last (Some squote # map Some (escape s))) squote"
proof (cases "s = []")
  case True
  then show ?thesis by (simp add: closes_def)
next
  case False
  assume "s = [] \<or> last s \<noteq> backslash"
  with False have "last (escape s) \<noteq> backslash" by (simp add: last_escape)
  moreover from False have "escape s \<noteq> []" by (simp add: escape_Nil_iff)
  ultimately show ?thesis by (simp add: closes_def last_map)
qed

lemma scan_literal:
  assumes out: "\<not> in_quotes st" "quote_char st = None" and wf: "wf_value v"
  shows "scan p (sql_literal v @ rest) st
           = scan None rest (st\<lparr>current_value := current_value st @ sql_literal v\<rparr>)"
proof (cases v)
  case None
  have "scan p (''NULL'' @ rest) st = scan (Some (CHR ''L'')) rest (st\<lparr>current_value := current_value st @ ''NULL''\<rparr>)"
    using out by (simp add: scan.simps(2))
  also have "\<dots> = scan None rest (st\<lparr>current_value := current_value st @ ''NULL''\<rparr>)"
    using out by (intro scan_prev_irrelevant) simp
  finally show ?thesis using None by simp
next
  case (Some s)
  let ?st1 = "st\<lparr>in_quotes := True, quote_char := Some squote,
                 current_value := current_value st @ [squote]\<rparr>"
  let ?st2 = "?st1\<lparr>current_value := current_value ?st1 @ escape s\<rparr>"
  let ?st3 = "?st2\<lparr>current_value := current_value ?st2 @ [squote], in_quotes := False, quote_char := None\<rparr>"
  from wf Some have cl: "closes squote (last (Some squote # map Some (escape s))) squote"
    by (intro closes_after_escape) simp
  have "scan p (sql_literal v @ rest) st = scan (Some squote) (escape s @ squote # rest) ?st1"
    using out Some by (simp add: scan.simps(2))
  also have "\<dots> = scan (last (Some squote # map Some (escape s))) (squote # rest) ?st2"
    by (rule scan_quoted_run [where q = squote]) (simp_all add: quoted_run_escape)
  also have "\<dots> = scan (Some squote) rest ?st3"
    using scan_quoted_step [of ?st2 squote "last (Some squote # map Some (escape s))" squote rest] cl
    by simp
  also have "\<dots> = scan None rest ?st3"
    by (intro scan_prev_irrelevant) simp
  also have "?st3 = st\<lparr>current_value := current_value st @ sql_literal v\<rparr>"
    using out Some by (cases st) simp
  finally show ?thesis .
qed

lemma scan_comma:
  "\<not> in_quotes st \<Longrightarrow> scan p (CHR '','' # rest) st = scan None rest (push_value st)"
proof -
  assume out: "\<not> in_quotes st"
  then have "scan p (CHR '','' # rest) st = scan (Some (CHR '','')) rest (push_value st)"
    by (simp add: scan.simps(2))
  also have "\<dots> = scan None rest (push_value st)"
    using out by (intro scan_prev_irrelevant) (simp add: push_value_def)
  finally show ?thesis .
qed

lemma push_literal:
  "push_value (st\<lparr>current_value := sql_literal v\<rparr>)
     = st\<lparr>current_row := current_row st @ [v], current_value := []\<rparr>"
  by (cases st) (simp add: push_value_def strip_sql_literal clean_sql_literal)

lemma scan_row:
  assumes "\<not> in_quotes st" "quote_char st = None" "current_value st = []"
    and "row \<noteq> []" and "\<forall>v \<in> set row. wf_value v"
  shows "scan p (row_text row @ rest) st
           = scan None rest (st\<lparr>current_row := current_row st @ butlast row,
                                  current_value := sql_literal (last row)\<rparr>)"
  using assms
proof (induction row arbitrary: st p)
  case Nil
  then show ?case by simp
next
  case (Cons v row)
  show ?case
  proof (cases row)
    case Nil
    have "scan p (sql_literal v @ rest) st
            = scan None rest (st\<lparr>current_value := current_value st @ sql_literal v\<rparr>)"
      using Cons.prems by (intro scan_literal) simp_all
    then show ?thesis using Nil Cons.prems(3) by (simp add: row_text_def)
  next
    case (Cons w vs)
    let ?st1 = "st\<lparr>current_value := sql_literal v\<rparr>"
    let ?st2 = "st\<lparr>current_row := current_row st @ [v], current_value := []\<rparr>"
    have t: "row_text (v # row) @ rest = sql_literal v @ CHR '','' # row_text row @ rest"
      using Cons by (simp add: row_text_def)
    have "scan p (sql_literal v @ CHR '','' # row_text row @ rest) st
            = scan None (CHR '','' # row_text row @ rest) (st\<lparr>current_value := current_value st @ sql_literal v\<rparr>)"
      using Cons.prems by (intro scan_literal) simp_all
    also have "\<dots> = scan None (CHR '','' # row_text row @ rest) ?st1"
      using Cons.prems(3) by simp
    also have "\<dots> = scan None (row_text row @ rest) (push_value ?st1)"
      using Cons.prems(1) by (intro scan_comma) simp
    also have "push_value ?st1 = ?st2" by (rule push_literal)
    also have "scan None (row_text row @ rest) ?st2
                 = scan None rest (?st2\<lparr>current_row := current_row ?st2 @ butlast row,
                                        current_value := sql_literal (last row)\<rparr>)"
      using Cons.prems Cons by (intro Cons.IH) simp_all
    finally show ?thesis using Cons t by simp
  qed
qed

lemma finish_pending:
  "finish (st\<lparr>current_row := butlast row, current_value := sql_literal (last row)\<rparr>)
     = rows st @ [butlast row @ [last row]]"
  using sql_literal_ends(1) [of "last row"]
  by (simp add: finish_def Let_def push_value_def strip_sql_literal clean_sql_literal)

lemma scan_rows:
  assumes "\<not> in_quotes st" "quote_char st = None" "current_value st = []" "current_row st = []"
    and "rws \<noteq> []" and "\<forall>row \<in> set rws. row \<noteq> [] \<and> (\<forall>v \<in> set row. wf_value v)"
  shows "finish (scan p (join ''),('' (map row_text rws)) st) = rows st @ rws"
  using assms
proof (induction rws arbitrary: st p)
  case Nil
  then show ?case by simp
next
  case (Cons r rws)
  from Cons.prems have r: "r \<noteq> []" "\<forall>v \<in> set r. wf_value v" by simp_all
  let ?st1 = "st\<lparr>current_row := current_row st @ butlast r, current_value := sql_literal (last r)\<rparr>"
  show ?case
  proof (cases rws)
    case Nil
    have "scan p (row_text r @ []) st = scan None [] ?st1"
      using Cons.prems r by (intro scan_row) simp_all
    then have "finish (scan p (row_text r) st) = finish ?st1" by simp
    also have "\<dots> = rows st @ [butlast r @ [last r]]"
      using finish_pending [where st = st and row = r] Cons.prems(4) by simp
    finally show ?thesis using Nil r(1) by simp
  next
    case (Cons r' rs)
    let ?more = "join ''),('' (map row_text rws)"
    let ?st3 = "st\<lparr>rows := rows st @ [r]\<rparr>"
    have t: "join ''),('' (map row_text (r # rws)) = row_text r @ CHR '')'' # '',('' @ ?more"
      using Cons by simp
    have "scan p (row_text r @ CHR '')'' # '',('' @ ?more) st = scan None (CHR '')'' # '',('' @ ?more) ?st1"
      using Cons.prems r by (intro scan_row) simp_all
    also have "\<dots> = scan (Some (CHR ''('')) ?more ?st3"
      using Cons.prems(1,3,4) r(1) sql_literal_ends(1) [of "last r"]
      by (cases st)
         (simp add: scan.simps(2) Let_def push_value_def strip_sql_literal clean_sql_literal)
    finally have "finish (scan p (join ''),('' (map row_text (r # rws))) st)
                    = finish (scan (Some (CHR ''('')) ?more ?st3)"
      using t by simp
    also have "\<dots> = rows ?st3 @ rws"
      using Cons.prems Cons by (intro Cons.IH) simp_all
    finally show ?thesis by simp
  qed
qed

lemma parse_written_rows:
  assumes "rws \<noteq> []" and "\<forall>row \<in> set rws. row \<noteq> [] \<and> (\<forall>v \<in> set row. wf_value v)"
  shows "parse_values_string (join ''),('' (map row_text rws)) = rws"
  using scan_rows [of init_state rws None] assms
  by (simp add: parse_values_string_def init_state_def)

lemma join_tuples:
  "rws \<noteq> [] \<Longrightarrow> join '','' (map tuple_text rws) = CHR ''('' # join ''),('' (map row_text rws) @ '')''"
proof (induction rws)
  case Nil
  then show ?case by simp
next
  case (Cons r rws)
  then show ?case by (cases rws) (simp_all add: tuple_text_def)
qed

lemma values_text_tuples:
  "rws \<noteq> [] \<Longrightarrow> values_text (join '','' (map tuple_text rws)) = join ''),('' (map row_text rws)"
proof -
  assume "rws \<noteq> []"
  then have j: "join '','' (map tuple_text rws) = CHR ''('' # join ''),('' (map row_text rws) @ '')''"
    by (rule join_tuples)
  have "strip (CHR ''('' # join ''),('' (map row_text rws) @ '')'')
          = CHR ''('' # join ''),('' (map row_text rws) @ '')''"
    by (rule strip_id) (simp add: isspace_def)
  then show ?thesis
    unfolding j by (simp add: values_text_def Let_def startswith_def endswith_def butlast_append)
qed

subsection \<open>The statements of the synthetic dump\<close>

lemma plain_name_chars:
  assumes "plain_name c"
  shows "newline \<notin> set c" "backtick \<notin> set c" "CHR '' '' \<notin> set c" "CHR '')'' \<notin> set c"
  using assms unfolding plain_name_def by fastforce+

lemma plain_name_Cons: "plain_name (x # c) \<Longrightarrow> plain_name c \<and> x \<noteq> CHR '' ''"
  unfolding plain_name_def by fastforce

lemma nowhere_append:
  "nowhere P (a @ b) s \<longleftrightarrow> nowhere P a (b @ s) \<and> nowhere P b s"
  by (induction a) auto

lemma nowhere_join_all:
  assumes sep: "\<And>r. nowhere P sep r" and ls: "\<forall>l \<in> set ls. \<forall>r. nowhere P l r"
  shows "\<forall>s. nowhere P (join sep ls) s"
  using ls
proof (induction ls)
  case Nil
  then show ?case by simp
next
  case (Cons a ls)
  show ?case
  proof (cases ls)
    case Nil
    then show ?thesis using Cons.prems by simp
  next
    case (Cons b bs)
    show ?thesis
    proof
      fix s
      have "nowhere P a (sep @ join sep ls @ s)" using Cons.prems by simp
      moreover have "nowhere P sep (join sep ls @ s)" by (rule sep)
      moreover have "nowhere P (join sep ls) s" using Cons.prems Cons.IH by simp
      ultimately show "nowhere P (join sep (a # ls)) s"
        using Cons by (simp add: nowhere_append)
    qed
  qed
qed

lemma nowhere_join:
  assumes "\<And>r. nowhere P sep r" and "\<forall>l \<in> set ls. \<forall>r. nowhere P l r"
  shows "nowhere P (join sep ls) s"
  using nowhere_join_all [of P sep ls] assms by blast

lemma lower_char_space: "lower_char x = lower_char (CHR '' '') \<longleftrightarrow> x = CHR '' ''"
  by (auto simp: lower_char_def split: if_splits)

lemma no_word_in_name:
  assumes "plain_name c" and "\<forall>y \<in> set w. lower_char backtick \<noteq> lower_char y"
  shows "\<not> ci_prefix (w @ CHR '' '' # z) (c @ backtick # r)"
  using assms
proof (induction c arbitrary: w)
  case Nil
  then show ?case by (cases w) (simp_all add: lower_char_def)
next
  case (Cons x c)
  from Cons.prems(1) have p: "plain_name c" and x: "x \<noteq> CHR '' ''"
    using plain_name_Cons by blast+
  show ?case
  proof (cases w)
    case Nil
    then show ?thesis using x by (simp add: lower_char_space)
  next
    case (Cons y w')
    then show ?thesis using Cons.IH [OF p, of w'] Cons.prems(2) by simp
  qed
qed

lemma no_insert_in_name:
  "plain_name c \<Longrightarrow> nowhere (ci_prefix (insert_head t)) c (backtick # r)"
proof (induction c)
  case Nil
  then show ?case by simp
next
  case (Cons x c)
  have "\<not> ci_prefix (''INSERT'' @ CHR '' '' # (''INTO '' @ [backtick] @ t @ [backtick])) ((x # c) @ backtick # r)"
    using Cons.prems by (intro no_word_in_name) (simp_all add: lower_char_def)
  then have "\<not> ci_prefix (insert_head t) (x # c @ backtick # r)"
    by (simp add: insert_head_def)
  moreover have "nowhere (ci_prefix (insert_head t)) c (backtick # r)"
    using Cons plain_name_Cons by blast
  ultimately show ?case by simp
qed

lemma no_insert_in_column_line:
  "plain_name c \<Longrightarrow> nowhere (ci_prefix (insert_head t)) (column_line c) r"
proof -
  assume p: "plain_name c"
  have 1: "nowhere (ci_prefix (insert_head t)) (''  '' @ [backtick]) (c @ [backtick] @ '' text'' @ r)"
    by (simp add: insert_head_def lower_char_def)
  have 2: "nowhere (ci_prefix (insert_head t)) c (backtick # '' text'' @ r)"
    using p by (rule no_insert_in_name)
  have 3: "nowhere (ci_prefix (insert_head t)) ([backtick] @ '' text'') r"
    by (simp add: insert_head_def lower_char_def)
  have "column_line c = (''  '' @ [backtick]) @ c @ ([backtick] @ '' text'')"
    by (simp add: column_line_def)
  then show ?thesis using 1 2 3 by (simp only: nowhere_append) simp
qed

lemma no_insert_in_create:
  assumes t: "plain_name t" and cols: "\<forall>c \<in> set cols. plain_name c"
  shows "nowhere (ci_prefix (insert_head t)) (create_stmt t cols) r"
proof -
  let ?P = "ci_prefix (insert_head t)"
  let ?lines = "join ('','' @ [newline]) (map column_line cols)"
  have 1: "nowhere ?P (''CREATE TABLE '' @ [backtick]) x" for x
    by (simp add: insert_head_def lower_char_def)
  have 2: "nowhere ?P t (backtick # x)" for x
    using t by (rule no_insert_in_name)
  have 3: "nowhere ?P ([backtick] @ '' ('' @ [newline]) x" for x
    by (simp add: insert_head_def lower_char_def)
  have 4: "nowhere ?P ?lines x" for x
  proof (rule nowhere_join)
    fix r show "nowhere ?P ('','' @ [newline]) r"
      by (simp add: insert_head_def lower_char_def)
  next
    show "\<forall>l \<in> set (map column_line cols). \<forall>r. nowhere ?P l r"
      using cols no_insert_in_column_line by auto
  qed
  have 5: "nowhere ?P ([newline] @ '') ENGINE=InnoDB;'' @ [newline]) x" for x
    by (simp add: insert_head_def lower_char_def)
  have "create_stmt t cols = (''CREATE TABLE '' @ [backtick]) @ t @ ([backtick] @ '' ('' @ [newline])
          @ ?lines @ ([newline] @ '') ENGINE=InnoDB;'' @ [newline])"
    by (simp add: create_stmt_def)
  then show ?thesis
    using 1 2 3 4 5 by (simp only: nowhere_append) simp
qed

lemma py_split_single: "c \<notin> set l \<Longrightarrow> py_split c l = [l]"
  by (induction l) auto

lemma py_split_line: "c \<notin> set l \<Longrightarrow> py_split c (l @ c # r) = l # py_split c r"
  by (induction l) auto

lemma column_line_no_newline: "plain_name c \<Longrightarrow> newline \<notin> set (column_line c)"
  using plain_name_chars(1) [of c] by (simp add: column_line_def)

lemma strip_column_line:
  "strip (column_line c @ z) = backtick # c @ backtick # '' text'' @ z" if "z = [] \<or> z = '',''"
proof -
  have "strip (''  '' @ (backtick # c @ backtick # '' text'' @ z) @ []) = backtick # c @ backtick # '' text'' @ z"
    using that by (intro strip_core) (auto simp: isspace_def)
  then show ?thesis by (simp add: column_line_def)
qed

lemma column_of_line:
  assumes "plain_name c" and "z = [] \<or> z = '',''"
  shows "is_column_line (strip (column_line c @ z))"
    and "column_name (strip (column_line c @ z)) = c"
proof -
  show "is_column_line (strip (column_line c @ z))"
    using assms(2) by (simp add: strip_column_line is_column_line_def)
  have "takeWhile (\<lambda>x. x \<noteq> backtick) (c @ backtick # '' text'' @ z) = c"
    using plain_name_chars(2) [OF assms(1)] by (subst takeWhile_append2) auto
  then show "column_name (strip (column_line c @ z)) = c"
    using assms(2) by (simp add: strip_column_line column_name_def)
qed

lemma strip_Nil: "strip [] = []"
  by (simp add: strip_def)

lemma columns_of_lines:
  assumes "cols \<noteq> []" and "\<forall>c \<in> set cols. plain_name c"
  shows "map column_name (filter is_column_line (map strip
           (py_split newline (join ('','' @ [newline]) (map column_line cols) @ [newline])))) = cols"
  using assms
proof (induction cols)
  case Nil
  then show ?case by simp
next
  case (Cons c cols)
  from Cons.prems have p: "plain_name c" by simp
  show ?case
  proof (cases cols)
    case Nil
    have "py_split newline (column_line c @ newline # []) = column_line c # py_split newline []"
      using p by (intro py_split_line column_line_no_newline)
    then show ?thesis
      using Nil column_of_line [OF p, of "[]"]
      by (simp add: strip_Nil is_column_line_def)
  next
    case (Cons d ds)
    let ?more = "join ('','' @ [newline]) (map column_line cols) @ [newline]"
    have "py_split newline ((column_line c @ '','') @ newline # ?more)
            = (column_line c @ '','') # py_split newline ?more"
      using column_line_no_newline [OF p] by (intro py_split_line) simp
    moreover have "join ('','' @ [newline]) (map column_line (c # cols)) @ [newline]
                     = (column_line c @ '','') @ newline # ?more"
      using Cons by simp
    moreover have "map column_name (filter is_column_line (map strip (py_split newline ?more))) = cols"
      using Cons.prems Cons by (intro Cons.IH) simp_all
    ultimately show ?thesis
      using column_of_line [OF p, of "'',''"] by simp
  qed
qed

lemma set_join: "set (join sep ls) \<subseteq> set sep \<union> \<Union> (set ` set ls)"
proof (induction ls)
  case Nil
  then show ?case by simp
next
  case (Cons a ls)
  then show ?case by (cases ls) auto
qed

lemma no_paren_in_body:
  assumes "\<forall>c \<in> set cols. plain_name c"
  shows "CHR '')'' \<notin> set (newline # join ('','' @ [newline]) (map column_line cols) @ [newline])"
proof -
  have "CHR '')'' \<notin> set (column_line c)" if "c \<in> set cols" for c
    using plain_name_chars(4) [of c] assms that by (simp add: column_line_def)
  then have "CHR '')'' \<notin> set (join ('','' @ [newline]) (map column_line cols))"
    using set_join [of "'','' @ [newline]" "map column_line cols"] by auto
  then show ?thesis by simp
qed

lemma nowhere_block_end: "CHR '')'' \<notin> set body \<Longrightarrow> nowhere block_end body s"
  by (induction body) auto

lemma create_search_synthetic:
  assumes "\<forall>c \<in> set cols. plain_name c"
  shows "rx_search (create_pattern t) (create_stmt t cols @ rest)
           = Some (newline # join ('','' @ [newline]) (map column_line cols) @ [newline],
                   ''=InnoDB;'' @ [newline] @ rest)"
proof -
  let ?body = "newline # join ('','' @ [newline]) (map column_line cols) @ [newline]"
  have sh: "create_stmt t cols @ rest
              = [] @ create_head t @ '' '' @ CHR ''('' # ?body @ CHR '')'' # '' '' @ ''ENGINE'' @ (''=InnoDB;'' @ [newline] @ rest)"
    by (simp add: create_stmt_def create_head_def)
  have 1: "nowhere (ci_prefix (create_head t)) []
             (create_head t @ '' '' @ CHR ''('' # ?body @ CHR '')'' # '' '' @ ''ENGINE'' @ (''=InnoDB;'' @ [newline] @ rest))"
    by simp
  have 2: "ci_eq (create_head t) (create_head t)" by (simp add: ci_eq_def)
  have 3: "\<forall>c \<in> set '' ''. isspace c" by (simp add: isspace_def)
  have 4: "nowhere block_end ?body (CHR '')'' # '' '' @ ''ENGINE'' @ (''=InnoDB;'' @ [newline] @ rest))"
    using no_paren_in_body [OF assms] by (rule nowhere_block_end)
  have 5: "ci_eq ''ENGINE'' ''ENGINE''" by (simp add: ci_eq_def)
  show ?thesis unfolding sh by (rule create_search [OF 1 2 3 4 3 5])
qed

lemma column_list_synthetic:
  assumes "cols \<noteq> []" and "\<forall>c \<in> set cols. plain_name c"
  shows "column_list (create_stmt t cols @ rest) t = cols"
  using create_search_synthetic [OF assms(2), of t rest] columns_of_lines [OF assms]
  by (simp add: column_list_def table_columns_def column_loop_eq strip_Nil is_column_line_def)

lemma set_escape: "set (escape s) \<subseteq> insert backslash (set s)"
  by (induction s) auto

lemma no_semicolon_literal: "wf_value v \<Longrightarrow> CHR '';'' \<notin> set (sql_literal v)"
  using set_escape by (cases v) auto

lemma no_semicolon_tuples:
  assumes "\<forall>row \<in> set rws. \<forall>v \<in> set row. wf_value v"
  shows "CHR '';'' \<notin> set (join '','' (map tuple_text rws))"
proof -
  have r: "CHR '';'' \<notin> set (row_text row)" if "row \<in> set rws" for row
    using set_join [of "'',''" "map sql_literal row"] assms that no_semicolon_literal
    by (fastforce simp: row_text_def)
  have "CHR '';'' \<notin> set (tuple_text row)" if "row \<in> set rws" for row
    using r [OF that] by (simp add: tuple_text_def)
  then show ?thesis
    using set_join [of "'',''" "map tuple_text rws"] by auto
qed

lemma findall_newline:
  "findall (insert_pattern t) (newline # rest) = findall (insert_pattern t) rest"
proof -
  have "\<not> ci_prefix (insert_head t) (newline # rest)"
    by (simp add: insert_head_def lower_char_def)
  then have "rx_match (insert_pattern t) (newline # rest) False [] = None"
    by (rule insert_no_match)
  then have "nowhere (\<lambda>x. rx_match (insert_pattern t) x False [] \<noteq> None) [newline] rest"
    by simp
  from findall_skip [OF this] show ?thesis by simp
qed

lemma findall_insert_stmt:
  assumes "rws \<noteq> []" and "\<forall>row \<in> set rws. \<forall>v \<in> set row. wf_value v"
  shows "findall (insert_pattern t) (insert_stmt t rws @ rest)
           = join '','' (map tuple_text rws) # findall (insert_pattern t) rest"
proof -
  let ?u = "join '','' (map tuple_text rws)"
  have sh: "insert_stmt t rws @ rest
              = insert_head t @ '' '' @ ''VALUES'' @ '' '' @ ?u @ CHR '';'' # (newline # rest)"
    by (simp add: insert_stmt_def insert_head_def)
  have 1: "ci_eq (insert_head t) (insert_head t)" by (simp add: ci_eq_def)
  have 3: "\<forall>c \<in> set '' ''. isspace c" by (simp add: isspace_def)
  have 2: "nowhere (ci_prefix ''VALUES'') '' '' (''VALUES'' @ '' '' @ ?u @ CHR '';'' # (newline # rest))"
    using 3 by (rule nowhere_spaces)
  have 4: "ci_eq ''VALUES'' ''VALUES''" by (simp add: ci_eq_def)
  have 5: "?u = [] \<or> \<not> isspace (hd ?u)"
    using join_tuples [OF assms(1)] by (simp add: isspace_def)
  have 6: "CHR '';'' \<notin> set ?u" using assms(2) by (rule no_semicolon_tuples)
  show ?thesis
    unfolding sh using insert_findall [OF 1 2 4 3 5 6] by (simp add: findall_newline)
qed

lemma findall_inserts:
  assumes "\<forall>rws \<in> set stmts. rws \<noteq> [] \<and> (\<forall>row \<in> set rws. \<forall>v \<in> set row. wf_value v)"
  shows "findall (insert_pattern t) (concat (map (insert_stmt t) stmts))
           = map (\<lambda>rws. join '','' (map tuple_text rws)) stmts"
  using assms
proof (induction stmts)
  case Nil
  have "\<not> ci_prefix (insert_head t) []" by (simp add: insert_head_def)
  then have "rx_match (insert_pattern t) [] False [] = None" by (rule insert_no_match)
  then show ?case by (simp add: findall_Nil)
next
  case (Cons rws stmts)
  then show ?case by (simp add: findall_insert_stmt)
qed

lemma findall_synthetic:
  assumes "plain_name t" and "\<forall>c \<in> set cols. plain_name c"
    and "\<forall>rws \<in> set stmts. rws \<noteq> [] \<and> (\<forall>row \<in> set rws. \<forall>v \<in> set row. wf_value v)"
  shows "findall (insert_pattern t) (synthetic_dump t cols stmts)
           = map (\<lambda>rws. join '','' (map tuple_text rws)) stmts"
proof -
  have "nowhere (\<lambda>x. rx_match (insert_pattern t) x False [] \<noteq> None) (create_stmt t cols)
          (concat (map (insert_stmt t) stmts))"
  proof (rule nowhere_mono [OF no_insert_in_create [OF assms(1,2)]])
    fix x assume "rx_match (insert_pattern t) x False [] \<noteq> None"
    then show "ci_prefix (insert_head t) x"
      using insert_no_match [of t x] by (cases "ci_prefix (insert_head t) x") auto
  qed
  from findall_skip [OF this] findall_inserts [OF assms(3)]
  show ?thesis by (simp add: synthetic_dump_def)
qed

lemma parse_written_tuples:
  assumes "rws \<noteq> []" and "\<forall>row \<in> set rws. row \<noteq> [] \<and> (\<forall>v \<in> set row. wf_value v)"
  shows "parse_values_string (values_text (join '','' (map tuple_text rws))) = rws"
  using assms by (simp add: values_text_tuples parse_written_rows)

lemma round_trip_general:
  assumes t: "plain_name t" and ne: "cols \<noteq> []" and d: "distinct cols"
    and cols: "\<forall>c \<in> set cols. plain_name c"
    and stmts: "\<forall>rws \<in> set stmts. rws \<noteq> [] \<and>
                  (\<forall>row \<in> set rws. length row = length cols \<and> (\<forall>v \<in> set row. wf_value v))"
  shows "extract_table_data (synthetic_dump t cols stmts) t = map (zip cols) (concat stmts)"
proof -
  let ?U = "\<lambda>rws. join '','' (map tuple_text rws)"
  have wf: "\<forall>rws \<in> set stmts. rws \<noteq> [] \<and> (\<forall>row \<in> set rws. \<forall>v \<in> set row. wf_value v)"
    using stmts by blast
  have wf': "\<forall>rws \<in> set stmts. rws \<noteq> [] \<and> (\<forall>row \<in> set rws. row \<noteq> [] \<and> (\<forall>v \<in> set row. wf_value v))"
    using stmts ne by fastforce
  have f: "findall (insert_pattern t) (synthetic_dump t cols stmts) = map ?U stmts"
    using t cols wf by (rule findall_synthetic)
  have c: "column_list (synthetic_dump t cols stmts) t = cols"
    unfolding synthetic_dump_def using ne cols by (rule column_list_synthetic)
  have p: "map (\<lambda>m. parse_values_string (values_text m)) (map ?U stmts) = stmts"
    using wf' by (induction stmts) (simp_all add: parse_written_tuples)
  have len: "\<forall>row \<in> set (concat stmts). length row = length cols"
    using stmts by auto
  then have fl: "filter (\<lambda>row. length row = length cols) (concat stmts) = concat stmts"
    by (simp add: filter_id_conv)
  have z: "map (row_dict cols) (concat stmts) = map (zip cols) (concat stmts)"
    using len d by (intro map_cong refl row_dict_zip) auto
  show ?thesis
    unfolding extract_table_data_eq materialize_eq f c p fl z ..
qed

lemma findall_after_create:
  assumes "plain_name t" and "\<forall>c \<in> set cols. plain_name c"
  shows "findall (insert_pattern t) (create_stmt t cols @ rest) = findall (insert_pattern t) rest"
proof -
  have "nowhere (\<lambda>x. rx_match (insert_pattern t) x False [] \<noteq> None) (create_stmt t cols) rest"
  proof (rule nowhere_mono [OF no_insert_in_create [OF assms]])
    fix x assume "rx_match (insert_pattern t) x False [] \<noteq> None"
    then show "ci_prefix (insert_head t) x"
      using insert_no_match [of t x] by (cases "ci_prefix (insert_head t) x") auto
  qed
  then show ?thesis by (rule findall_skip)
qed

lemma findall_empty: "findall (insert_pattern t) [] = []"
proof -
  have "\<not> ci_prefix (insert_head t) []" by (simp add: insert_head_def)
  then have "rx_match (insert_pattern t) [] False [] = None" by (rule insert_no_match)
  then show ?thesis by (rule findall_Nil)
qed

lemma insert_findall_pre:
  assumes pre: "nowhere (ci_prefix (insert_head t)) pre (h @ mid @ vals @ ws @ u @ CHR '';'' # rest)"
    and stmt: "ci_eq h (insert_head t)"
      "nowhere (ci_prefix ''VALUES'') mid (vals @ ws @ u @ CHR '';'' # rest)"
      "ci_eq vals ''VALUES''" "\<forall>c \<in> set ws. isspace c" "u = [] \<or> \<not> isspace (hd u)"
      "CHR '';'' \<notin> set u"
  shows "findall (insert_pattern t) (pre @ h @ mid @ vals @ ws @ u @ CHR '';'' # rest)
           = u # findall (insert_pattern t) rest"
proof -
  have "nowhere (\<lambda>x. rx_match (insert_pattern t) x False [] \<noteq> None) pre
          (h @ mid @ vals @ ws @ u @ CHR '';'' # rest)"
  proof (rule nowhere_mono [OF pre])
    fix x assume "rx_match (insert_pattern t) x False [] \<noteq> None"
    then show "ci_prefix (insert_head t) x"
      using insert_no_match [of t x] by (cases "ci_prefix (insert_head t) x") auto
  qed
  from findall_skip [OF this] insert_findall [OF stmt] show ?thesis by simp
qed

lemma single_statement_dump:
  assumes t: "plain_name t" and cols: "cols \<noteq> []" "\<forall>c \<in> set cols. plain_name c"
    and u: "u = [] \<or> \<not> isspace (hd u)" "CHR '';'' \<notin> set u"
  shows "extract_table_data (create_stmt t cols @ insert_head t @ '' VALUES '' @ u @ '';'') t
           = materialize cols [u]"
proof -
  let ?stmt = "insert_head t @ '' VALUES '' @ u @ '';''"
  have sh: "?stmt = insert_head t @ '' '' @ ''VALUES'' @ '' '' @ u @ CHR '';'' # []" by simp
  have 1: "ci_eq (insert_head t) (insert_head t)" by (simp add: ci_eq_def)
  have 3: "\<forall>c \<in> set '' ''. isspace c" by (simp add: isspace_def)
  have 2: "nowhere (ci_prefix ''VALUES'') '' '' (''VALUES'' @ '' '' @ u @ CHR '';'' # [])"
    using 3 by (rule nowhere_spaces)
  have 4: "ci_eq ''VALUES'' ''VALUES''" by (simp add: ci_eq_def)
  have "findall (insert_pattern t) ?stmt = [u]"
    unfolding sh using insert_findall [OF 1 2 4 3 u] by (simp add: findall_empty)
  then have f: "findall (insert_pattern t) (create_stmt t cols @ ?stmt) = [u]"
    using findall_after_create [OF t cols(2)] by simp
  have c: "column_list (create_stmt t cols @ ?stmt) t = cols"
    using cols by (rule column_list_synthetic)
  show ?thesis unfolding extract_table_data_eq f c ..
qed

subsection \<open>Tokens in quotes\<close>

lemma quoted_token:
  "startswith v [q] \<and> endswith v [q] \<longleftrightarrow> bounded q v \<or> v = [q]"
proof (cases v)
  case Nil
  then show ?thesis by (simp add: startswith_char endswith_char bounded_def)
next
  case (Cons x w)
  then show ?thesis
    by (cases w) (auto simp: startswith_char endswith_char bounded_def)
qed

lemma strip_nonempty: "s \<noteq> [] \<Longrightarrow> \<not> isspace (hd s) \<Longrightarrow> strip s \<noteq> []"
proof -
  assume s: "s \<noteq> []" and h: "\<not> isspace (hd s)"
  obtain a m b where d: "s = a @ m @ b" "\<forall>c \<in> set a. isspace c" "\<forall>c \<in> set b. isspace c"
      "strip s = m"
    using strip_decomp [of s] by blast
  show ?thesis
  proof
    assume "strip s = []"
    with d have "\<forall>c \<in> set s. isspace c" by auto
    with s h show False by (cases s) auto
  qed
qed

lemma clean_value_strip: "clean_value (strip x) = clean_value x"
  by (simp add: clean_value_def strip_strip)

lemma finish_one_token:
  assumes "rows st = []" "current_row st = []" "current_value st \<noteq> []"
    "\<not> isspace (hd (current_value st))"
  shows "finish st = [[clean_value (current_value st)]]"
  using strip_nonempty [OF assms(3,4)] assms(1,2)
  by (simp add: finish_def Let_def push_value_def clean_value_strip)

lemma scan_open:
  "\<not> in_quotes st \<Longrightarrow> q = squote \<or> q = dquote \<Longrightarrow>
   scan prev (q # cs) st
     = scan (Some q) cs (st\<lparr>in_quotes := True, quote_char := Some q,
                           current_value := current_value st @ [q]\<rparr>)"
  by (auto simp: scan.simps(2))

lemma quote_not_space: "q = squote \<or> q = dquote \<Longrightarrow> \<not> isspace q"
  by (auto simp: isspace_def)

lemma parse_unterminated:
  assumes q: "q = squote \<or> q = dquote" and run: "quoted_run q (Some q) u"
  shows "parse_values_string (q # u) = [[clean_value (q # u)]]"
proof -
  let ?st1 = "init_state\<lparr>in_quotes := True, quote_char := Some q,
                 current_value := current_value init_state @ [q]\<rparr>"
  have "scan None (q # u) init_state = scan (Some q) (u @ []) ?st1"
    using scan_open [OF _ q, of init_state None u] by (simp add: init_state_def)
  also have "\<dots> = scan (last (Some q # map Some u)) [] (?st1\<lparr>current_value := current_value ?st1 @ u\<rparr>)"
    using run by (intro scan_quoted_run) simp_all
  finally have "scan None (q # u) init_state = ?st1\<lparr>current_value := q # u\<rparr>"
    by (simp add: init_state_def)
  then show ?thesis
    using quote_not_space [OF q]
    by (simp add: parse_values_string_def finish_one_token init_state_def)
qed

lemma parse_terminated:
  assumes q: "q = squote \<or> q = dquote" and run: "quoted_run q (Some q) u"
    and cl: "closes q (last (Some q # map Some u)) q"
  shows "parse_values_string (q # u @ [q]) = [[clean_value (q # u @ [q])]]"
proof -
  let ?st1 = "init_state\<lparr>in_quotes := True, quote_char := Some q,
                 current_value := current_value init_state @ [q]\<rparr>"
  let ?st2 = "?st1\<lparr>current_value := current_value ?st1 @ u\<rparr>"
  have "scan None (q # u @ [q]) init_state = scan (Some q) (u @ [q]) ?st1"
    using scan_open [OF _ q, of init_state None "u @ [q]"] by (simp add: init_state_def)
  also have "\<dots> = scan (last (Some q # map Some u)) [q] ?st2"
    using run by (intro scan_quoted_run) simp_all
  also have "\<dots> = scan (Some q) [] (?st2\<lparr>current_value := current_value ?st2 @ [q],
                       in_quotes := \<not> closes q (last (Some q # map Some u)) q,
                       quote_char := (if closes q (last (Some q # map Some u)) q then None else Some q)\<rparr>)"
    by (rule scan_quoted_step) simp_all
  finally have "scan None (q # u @ [q]) init_state
                  = init_state\<lparr>current_value := q # u @ [q]\<rparr>"
    using cl by (simp add: init_state_def)
  then show ?thesis
    using quote_not_space [OF q]
    by (simp add: parse_values_string_def finish_one_token init_state_def)
qed

section \<open>The properties\<close>

text \<open>
  C1 (as amended). For every list of three column names, extracting the tuple list
  \<^verbatim>\<open>(NULL, 'a,b', 'it''s')\<close> gives one record, which stores under the three names, in
  this order, null, the text \<^verbatim>\<open>a,b\<close> and the text \<^verbatim>\<open>it''s\<close>: the comma inside the quotes
  does not split the value, and the doubled single quote stays as it is, two quote
  characters (only backslash escapes are resolved). For three different names the
  record is the list of the three pairs; and this is the dataset extracted from a dump
  that declares the table with these three columns and inserts the tuple.
\<close>

theorem single_row_record:
  "materialize [c1, c2, c3]
     [''(NULL, '' @ [squote] @ ''a,b'' @ [squote] @ '', '' @ [squote] @ ''it'' @ [squote, squote] @ ''s'' @ [squote] @ '')'']
     = [AList.updates [c1, c2, c3] [None, Some ''a,b'', Some (''it'' @ [squote, squote] @ ''s'')] []]
   \<and> (distinct [c1, c2, c3] \<longrightarrow>
        materialize [c1, c2, c3]
          [''(NULL, '' @ [squote] @ ''a,b'' @ [squote] @ '', '' @ [squote] @ ''it'' @ [squote, squote] @ ''s'' @ [squote] @ '')'']
          = [[(c1, None), (c2, Some ''a,b''), (c3, Some (''it'' @ [squote, squote] @ ''s''))]])
   \<and> (plain_name t \<and> plain_name c1 \<and> plain_name c2 \<and> plain_name c3 \<and> distinct [c1, c2, c3] \<longrightarrow>
        extract_table_data
          (create_stmt t [c1, c2, c3] @ insert_head t @ '' VALUES ''
           @ (''(NULL, '' @ [squote] @ ''a,b'' @ [squote] @ '', '' @ [squote] @ ''it'' @ [squote, squote] @ ''s'' @ [squote] @ '')'')
           @ '';'') t
          = [[(c1, None), (c2, Some ''a,b''), (c3, Some (''it'' @ [squote, squote] @ ''s''))]])"
proof -
  let ?m = "''(NULL, '' @ [squote] @ ''a,b'' @ [squote] @ '', '' @ [squote] @ ''it'' @ [squote, squote] @ ''s'' @ [squote] @ '')''"
  let ?row = "[None, Some ''a,b'', Some (''it'' @ [squote, squote] @ ''s'')]"
  have p: "parse_values_string (values_text ?m) = [?row]" by code_simp
  have m: "materialize [c1, c2, c3] [?m] = [row_dict [c1, c2, c3] ?row]"
    unfolding materialize_eq by (simp only: list.map concat.simps append_Nil2 p) simp
  have u: "row_dict [c1, c2, c3] ?row = AList.updates [c1, c2, c3] ?row []"
    by (rule row_dict_updates) simp
  have z: "distinct [c1, c2, c3] \<Longrightarrow> row_dict [c1, c2, c3] ?row = zip [c1, c2, c3] ?row"
    by (rule row_dict_zip) simp_all
  have e: "extract_table_data (create_stmt t [c1, c2, c3] @ insert_head t @ '' VALUES '' @ ?m @ '';'') t
             = materialize [c1, c2, c3] [?m]"
    if "plain_name t" "plain_name c1" "plain_name c2" "plain_name c3"
    using that by (intro single_statement_dump) (simp_all add: isspace_def)
  show ?thesis using m u z e by simp
qed

theorem single_row_record_witness:
  "distinct [''col1'', ''col2'', ''col3'']
   \<and> materialize [''col1'', ''col2'', ''col3'']
     [''(NULL, '' @ [squote] @ ''a,b'' @ [squote] @ '', '' @ [squote] @ ''it'' @ [squote, squote] @ ''s'' @ [squote] @ '')'']
     = [[(''col1'', None), (''col2'', Some ''a,b''), (''col3'', Some (''it'' @ [squote, squote] @ ''s''))]]
   \<and> plain_name ''t'' \<and> plain_name ''col1'' \<and> plain_name ''col2'' \<and> plain_name ''col3''
   \<and> create_stmt ''t'' [''col1'', ''col2'', ''col3''] @ insert_head ''t'' @ '' VALUES ''
        @ (''(NULL, '' @ [squote] @ ''a,b'' @ [squote] @ '', '' @ [squote] @ ''it'' @ [squote, squote] @ ''s'' @ [squote] @ '')'')
        @ '';''
      = ''CREATE TABLE `t` (\<newline>  `col1` text,\<newline>  `col2` text,\<newline>  `col3` text\<newline>) ENGINE=InnoDB;\<newline>''
        @ ''INSERT INTO `t` VALUES (NULL, '' @ [squote] @ ''a,b'' @ [squote] @ '', '' @ [squote] @ ''it'' @ [squote, squote] @ ''s'' @ [squote] @ '');''
   \<and> extract_table_data
        (''CREATE TABLE `t` (\<newline>  `col1` text,\<newline>  `col2` text,\<newline>  `col3` text\<newline>) ENGINE=InnoDB;\<newline>''
         @ ''INSERT INTO `t` VALUES (NULL, '' @ [squote] @ ''a,b'' @ [squote] @ '', '' @ [squote] @ ''it'' @ [squote, squote] @ ''s'' @ [squote] @ '');'') ''t''
      = [[(''col1'', None), (''col2'', Some ''a,b''), (''col3'', Some (''it'' @ [squote, squote] @ ''s''))]]"
proof -
  let ?m = "''(NULL, '' @ [squote] @ ''a,b'' @ [squote] @ '', '' @ [squote] @ ''it'' @ [squote, squote] @ ''s'' @ [squote] @ '')''"
  have d: "distinct [''col1'', ''col2'', ''col3'']" by simp
  have p: "plain_name ''t''" "plain_name ''col1''" "plain_name ''col2''" "plain_name ''col3''"
    by code_simp+
  have s: "create_stmt ''t'' [''col1'', ''col2'', ''col3''] @ insert_head ''t'' @ '' VALUES '' @ ?m @ '';''
      = ''CREATE TABLE `t` (\<newline>  `col1` text,\<newline>  `col2` text,\<newline>  `col3` text\<newline>) ENGINE=InnoDB;\<newline>''
        @ ''INSERT INTO `t` VALUES (NULL, '' @ [squote] @ ''a,b'' @ [squote] @ '', '' @ [squote] @ ''it'' @ [squote, squote] @ ''s'' @ [squote] @ '');''"
    by code_simp
  note inst = single_row_record [of "''col1''" "''col2''" "''col3''" "''t''"]
  from inst d have a: "materialize [''col1'', ''col2'', ''col3''] [?m]
     = [[(''col1'', None), (''col2'', Some ''a,b''), (''col3'', Some (''it'' @ [squote, squote] @ ''s''))]]"
    by blast
  from inst d p have "extract_table_data
        (create_stmt ''t'' [''col1'', ''col2'', ''col3''] @ insert_head ''t'' @ '' VALUES '' @ ?m @ '';'') ''t''
      = [[(''col1'', None), (''col2'', Some ''a,b''), (''col3'', Some (''it'' @ [squote, squote] @ ''s''))]]"
    by blast
  then have b: "extract_table_data
        (''CREATE TABLE `t` (\<newline>  `col1` text,\<newline>  `col2` text,\<newline>  `col3` text\<newline>) ENGINE=InnoDB;\<newline>''
         @ ''INSERT INTO `t` VALUES (NULL, '' @ [squote] @ ''a,b'' @ [squote] @ '', '' @ [squote] @ ''it'' @ [squote, squote] @ ''s'' @ [squote] @ '');'') ''t''
      = [[(''col1'', None), (''col2'', Some ''a,b''), (''col3'', Some (''it'' @ [squote, squote] @ ''s''))]]"
    unfolding s .
  from d a p s b show ?thesis by blast
qed

theorem doubled_quote_counterexample:
  "extract_table_data
     (''CREATE TABLE `t` (\<newline>  `col1` int,\<newline>  `col2` text,\<newline>  `col3` text\<newline>) ENGINE=InnoDB;\<newline>''
      @ ''INSERT INTO `t` VALUES (NULL, '' @ [squote] @ ''a,b'' @ [squote] @ '', '' @ [squote] @ ''it'' @ [squote, squote] @ ''s'' @ [squote] @ '');'')
     ''t''
   \<noteq> [[(''col1'', None), (''col2'', Some ''a,b''), (''col3'', Some (''it'' @ [squote] @ ''s''))]]"
proof -
  have "extract_table_data
     (''CREATE TABLE `t` (\<newline>  `col1` int,\<newline>  `col2` text,\<newline>  `col3` text\<newline>) ENGINE=InnoDB;\<newline>''
      @ ''INSERT INTO `t` VALUES (NULL, '' @ [squote] @ ''a,b'' @ [squote] @ '', '' @ [squote] @ ''it'' @ [squote, squote] @ ''s'' @ [squote] @ '');'')
     ''t''
    = [[(''col1'', None), (''col2'', Some ''a,b''), (''col3'', Some (''it'' @ [squote, squote] @ ''s''))]]"
    by code_simp
  then show ?thesis by simp
qed

text \<open>
  C5. For every dump text and table name no error is raised, and the dataset holds, in
  the order in which the statements and their tuples are met, one record for each row
  that is as long as the Column List, and nothing for the other rows. The record of
  such a row pairs the columns with the values of the row in column order: it is the
  dictionary of the zipped pairs, and the list of these pairs itself when no column
  name occurs twice.
\<close>

theorem arity_filter:
  "plain_name table_name \<Longrightarrow>
   extract_body sql_content table_name \<noteq> None
   \<and> extract_table_data sql_content table_name
       = map (row_dict (column_list sql_content table_name))
           (filter (\<lambda>row. length row = length (column_list sql_content table_name))
              (concat (map (\<lambda>m. parse_values_string (values_text m))
                         (findall (insert_pattern table_name) sql_content))))
   \<and> (\<forall>row. length row = length (column_list sql_content table_name) \<longrightarrow>
         row_dict (column_list sql_content table_name) row
           = AList.updates (column_list sql_content table_name) row []
         \<and> (distinct (column_list sql_content table_name) \<longrightarrow>
              row_dict (column_list sql_content table_name) row
                = zip (column_list sql_content table_name) row))"
  by (simp add: extract_body_eq extract_table_data_eq materialize_eq row_dict_updates [symmetric]
        row_dict_zip)

theorem arity_filter_witness:
  "plain_name ''t''
   \<and> column_list (''CREATE TABLE `t` (\<newline>  `a` int,\<newline>  `b` text\<newline>) ENGINE=InnoDB;\<newline>''
         @ ''INSERT INTO `t` VALUES (1,2),(3),(4,5,6);\<newline>INSERT INTO `t` VALUES (7,8);'') ''t''
       = [''a'', ''b'']
   \<and> extract_table_data
        (''CREATE TABLE `t` (\<newline>  `a` int,\<newline>  `b` text\<newline>) ENGINE=InnoDB;\<newline>''
         @ ''INSERT INTO `t` VALUES (1,2),(3),(4,5,6);\<newline>INSERT INTO `t` VALUES (7,8);'') ''t''
       = [[(''a'', Some ''1''), (''b'', Some ''2'')], [(''a'', Some ''7''), (''b'', Some ''8'')]]"
proof -
  let ?d = "''CREATE TABLE `t` (\<newline>  `a` int,\<newline>  `b` text\<newline>) ENGINE=InnoDB;\<newline>''
         @ ''INSERT INTO `t` VALUES (1,2),(3),(4,5,6);\<newline>INSERT INTO `t` VALUES (7,8);''"
  have pn: "plain_name ''t''" by code_simp
  have cl: "column_list ?d ''t'' = [''a'', ''b'']" by code_simp
  have fa: "concat (map (\<lambda>m. parse_values_string (values_text m)) (findall (insert_pattern ''t'') ?d))
              = [[Some ''1'', Some ''2''], [Some ''3''], [Some ''4'', Some ''5'', Some ''6''],
                 [Some ''7'', Some ''8'']]"
    by code_simp
  have rd: "row_dict [''a'', ''b''] [x, y] = [(''a'', x), (''b'', y)]" for x y :: val
    by (simp add: row_dict_zip)
  from arity_filter [OF pn, of ?d]
  have "extract_table_data ?d ''t''
       = map (row_dict (column_list ?d ''t''))
           (filter (\<lambda>row. length row = length (column_list ?d ''t''))
              (concat (map (\<lambda>m. parse_values_string (values_text m))
                         (findall (insert_pattern ''t'') ?d))))"
    by blast
  then have "extract_table_data ?d ''t''
       = [[(''a'', Some ''1''), (''b'', Some ''2'')], [(''a'', Some ''7''), (''b'', Some ''8'')]]"
    unfolding cl fa by (simp add: rd)
  with pn cl show ?thesis by blast
qed

text \<open>
  C6. A call of \<^verbatim>\<open>parse_sql_file\<close> raises an error exactly when the file cannot be
  opened, read or decoded, and the error carries the text of that failure. When the
  file is read the call returns a result whatever the content is, and no extraction
  of a table raises inside: a missing \<^verbatim>\<open>CREATE TABLE\<close> block, no matching statement,
  malformed tuple text and rows of the wrong length all end in a dataset, which may be
  empty or partial.
\<close>

theorem only_file_error:
  "((\<exists>msg. parse_sql_file file_read = Inl msg) \<longleftrightarrow> (\<exists>e. file_read = Inl e))
   \<and> (\<forall>e. file_read = Inl e \<longrightarrow>
         parse_sql_file file_read = Inl (''Failed to parse SQL file: '' @ e))
   \<and> (\<forall>content. file_read = Inr content \<longrightarrow>
         (\<exists>result. parse_sql_file file_read = Inr result)
         \<and> (\<forall>t \<in> set requested_tables. extract_body content t \<noteq> None))"
  by (cases file_read) (simp_all add: parse_sql_file_def Let_def extract_body_eq)

theorem only_file_error_witness:
  "parse_sql_file (Inl ''No such file or directory'')
     = Inl ''Failed to parse SQL file: No such file or directory''
   \<and> parse_sql_file (Inr ''INSERT INTO `is_user` VALUES (1,2;'')
     = Inr [(''users'', []), (''admins'', []), (''accounts'', []), (''tickets'', []), (''ssl'', [])]
   \<and> extract_body ''INSERT INTO `is_user` VALUES (1,2;'' ''is_user'' = Some []"
proof -
  have a: "parse_sql_file (Inl ''No such file or directory'')
             = Inl (''Failed to parse SQL file: '' @ ''No such file or directory'')"
    using only_file_error [of "Inl ''No such file or directory''"] by blast
  have "\<exists>result. parse_sql_file (Inr ''INSERT INTO `is_user` VALUES (1,2;'') = Inr result"
    using only_file_error [of "Inr ''INSERT INTO `is_user` VALUES (1,2;''"] by blast
  moreover have "parse_sql_file (Inr ''INSERT INTO `is_user` VALUES (1,2;'')
     = Inr [(''users'', []), (''admins'', []), (''accounts'', []), (''tickets'', []), (''ssl'', [])]"
    by code_simp
  moreover have "extract_body ''INSERT INTO `is_user` VALUES (1,2;'' ''is_user'' = Some []"
    by code_simp
  ultimately show ?thesis using a by simp
qed

text \<open>
  C7 (as amended). For every dump text the call returns, without raising, a dictionary
  whose keys are exactly \<^verbatim>\<open>users\<close>, \<^verbatim>\<open>admins\<close>, \<^verbatim>\<open>accounts\<close>, \<^verbatim>\<open>tickets\<close> and \<^verbatim>\<open>ssl\<close>, in
  this order, which hold the datasets of the five requested tables \<^verbatim>\<open>is_user\<close>,
  \<^verbatim>\<open>is_admin\<close>, \<^verbatim>\<open>is_account\<close>, \<^verbatim>\<open>is_ticket\<close> and \<^verbatim>\<open>is_ssl\<close>; a table with no matching
  \<^verbatim>\<open>INSERT\<close> statement in the dump has the empty dataset under its key.
\<close>

theorem result_keys_and_empty_tables:
  "(\<exists>result. parse_sql_file (Inr content) = Inr result
      \<and> map fst result = result_keys
      \<and> map snd result = map (extract_table_data content) requested_tables)
   \<and> (\<forall>t. findall (insert_pattern t) content = [] \<longrightarrow> extract_table_data content t = [])"
  by (simp add: parse_sql_file_def Let_def result_keys_def requested_tables_def
        extract_table_data_def extract_body_def)

theorem result_keys_and_empty_tables_witness:
  "findall (insert_pattern ''is_admin'') ''INSERT INTO `is_user` VALUES (1);'' = []
   \<and> extract_table_data ''INSERT INTO `is_user` VALUES (1);'' ''is_admin'' = []
   \<and> (\<exists>result. parse_sql_file (Inr ''INSERT INTO `is_user` VALUES (1);'') = Inr result
         \<and> map fst result = [''users'', ''admins'', ''accounts'', ''tickets'', ''ssl''])"
proof -
  have f: "findall (insert_pattern ''is_admin'') ''INSERT INTO `is_user` VALUES (1);'' = []"
    by code_simp
  from result_keys_and_empty_tables [of "''INSERT INTO `is_user` VALUES (1);''"] f
  have "extract_table_data ''INSERT INTO `is_user` VALUES (1);'' ''is_admin'' = []"
    by blast
  moreover from result_keys_and_empty_tables [of "''INSERT INTO `is_user` VALUES (1);''"]
  obtain result where "parse_sql_file (Inr ''INSERT INTO `is_user` VALUES (1);'') = Inr result"
    and "map fst result = result_keys"
    by blast
  then have "\<exists>result. parse_sql_file (Inr ''INSERT INTO `is_user` VALUES (1);'') = Inr result
         \<and> map fst result = [''users'', ''admins'', ''accounts'', ''tickets'', ''ssl'']"
    by (simp add: result_keys_def)
  ultimately show ?thesis using f by blast
qed

theorem result_keys_counterexample:
  "set (map fst (projr (parse_sql_file (Inr ''INSERT INTO `is_user` VALUES (1);''))))
     \<noteq> set requested_tables"
proof -
  have "''is_user'' \<notin> set (map fst (projr (parse_sql_file (Inr ''INSERT INTO `is_user` VALUES (1);''))))"
    by (simp add: parse_sql_file_def Let_def)
  moreover have "''is_user'' \<in> set requested_tables"
    by (simp add: requested_tables_def)
  ultimately show ?thesis by metis
qed

text \<open>
  C10. The text captured for a statement ends at the first semicolon after \<^verbatim>\<open>VALUES\<close>,
  and quotes play no part in finding it: when the statement is its first words, any
  text \<open>mid\<close> in which \<^verbatim>\<open>VALUES\<close> does not begin, \<^verbatim>\<open>VALUES\<close>, white space, a text \<open>u\<close> without
  a semicolon, and a semicolon, then the captured text is \<open>u\<close>, whatever quote
  characters \<open>u\<close> holds and whatever follows the semicolon. So a semicolon inside a
  quoted value cuts the tuple text there; the search for the next statement goes on
  behind that semicolon, and the rest of the statement is not part of any tuple text
  of this statement.
\<close>

theorem capture_stops_at_first_semicolon:
  "plain_name t \<Longrightarrow> ci_eq h (insert_head t) \<Longrightarrow>
   nowhere (ci_prefix ''VALUES'') mid (vals @ ws @ u @ CHR '';'' # rest) \<Longrightarrow>
   ci_eq vals ''VALUES'' \<Longrightarrow> \<forall>c \<in> set ws. isspace c \<Longrightarrow>
   u = [] \<or> \<not> isspace (hd u) \<Longrightarrow> CHR '';'' \<notin> set u \<Longrightarrow>
   rx_match (insert_pattern t) (h @ mid @ vals @ ws @ u @ CHR '';'' # rest) False [] = Some (u, rest)
   \<and> findall (insert_pattern t) (h @ mid @ vals @ ws @ u @ CHR '';'' # rest)
       = u # findall (insert_pattern t) rest"
  using insert_match [of h t mid vals ws u rest] insert_findall [of h t mid vals ws u rest]
  by simp

theorem capture_stops_at_first_semicolon_witness:
  "plain_name ''t'' \<and> ci_eq ''INSERT INTO `t`'' (insert_head ''t'')
   \<and> nowhere (ci_prefix ''VALUES'') '' (`a`, `b`) ''
        (''VALUES'' @ '' '' @ (''(1, '' @ [squote] @ ''x'') @ CHR '';'' # (''y'' @ [squote] @ ''), (2, '' @ [squote] @ ''z'' @ [squote] @ '');''))
   \<and> ci_eq ''VALUES'' ''VALUES'' \<and> list_all isspace '' ''
   \<and> ((''(1, '' @ [squote] @ ''x'') = [] \<or> \<not> isspace (hd (''(1, '' @ [squote] @ ''x'')))
   \<and> CHR '';'' \<notin> set (''(1, '' @ [squote] @ ''x'')
   \<and> findall (insert_pattern ''t'')
        (''INSERT INTO `t`'' @ '' (`a`, `b`) '' @ ''VALUES'' @ '' '' @ (''(1, '' @ [squote] @ ''x'') @ CHR '';'' # (''y'' @ [squote] @ ''), (2, '' @ [squote] @ ''z'' @ [squote] @ '');''))
      = [''(1, '' @ [squote] @ ''x'']
   \<and> extract_table_data
        (''CREATE TABLE `t` (\<newline>  `a` int,\<newline>  `b` text\<newline>) ENGINE=InnoDB;\<newline>''
         @ ''INSERT INTO `t`'' @ '' (`a`, `b`) '' @ ''VALUES'' @ '' '' @ (''(1, '' @ [squote] @ ''x'') @ CHR '';'' # (''y'' @ [squote] @ ''), (2, '' @ [squote] @ ''z'' @ [squote] @ '');''))
        ''t''
      = [[(''a'', Some ''1''), (''b'', Some ([squote] @ ''x''))]]"
proof -
  let ?u = "''(1, '' @ [squote] @ ''x''"
  let ?rest = "''y'' @ [squote] @ ''), (2, '' @ [squote] @ ''z'' @ [squote] @ '');''"
  have 1: "plain_name ''t''" by code_simp
  have 2: "ci_eq ''INSERT INTO `t`'' (insert_head ''t'')" by code_simp
  have 3: "nowhere (ci_prefix ''VALUES'') '' (`a`, `b`) '' (''VALUES'' @ '' '' @ ?u @ CHR '';'' # ?rest)"
    by code_simp
  have 4: "ci_eq ''VALUES'' ''VALUES''" by code_simp
  have 5: "\<forall>c \<in> set '' ''. isspace c" by code_simp
  have 6: "?u = [] \<or> \<not> isspace (hd ?u)" by code_simp
  have 7: "CHR '';'' \<notin> set ?u" by simp
  have 8: "findall (insert_pattern ''t'') ?rest = []" by code_simp
  from capture_stops_at_first_semicolon [OF 1 2 3 4 5 6 7] 8
  have 9: "findall (insert_pattern ''t'')
        (''INSERT INTO `t`'' @ '' (`a`, `b`) '' @ ''VALUES'' @ '' '' @ ?u @ CHR '';'' # ?rest) = [?u]"
    by simp
  have 10: "extract_table_data
        (''CREATE TABLE `t` (\<newline>  `a` int,\<newline>  `b` text\<newline>) ENGINE=InnoDB;\<newline>''
         @ ''INSERT INTO `t`'' @ '' (`a`, `b`) '' @ ''VALUES'' @ '' '' @ ?u @ CHR '';'' # ?rest) ''t''
      = [[(''a'', Some ''1''), (''b'', Some ([squote] @ ''x''))]]"
    by code_simp
  have 11: "list_all isspace '' ''" by (simp add: isspace_def)
  from 1 2 3 4 6 7 9 10 11 show ?thesis by blast
qed

text \<open>
  C9 (as amended). Round trip: for a table name and \<open>M \<ge> 1\<close> different column names
  made of letters, digits and underscores, and for \<^verbatim>\<open>INSERT\<close> statements that carry \<open>N\<close>
  tuples of \<open>M\<close> values each, where a value is null or a text that holds no semicolon
  and does not end with a backslash, extracting the table from the synthetic dump
  gives exactly \<open>N\<close> records, in tuple order; each has exactly the \<open>M\<close> column names as
  keys, in column order, and the values of its tuple as they were before they were
  escaped.
\<close>

theorem round_trip:
  "plain_name t \<Longrightarrow> cols \<noteq> [] \<Longrightarrow> distinct cols \<Longrightarrow> \<forall>c \<in> set cols. plain_name c \<Longrightarrow>
   \<forall>rws \<in> set stmts. rws \<noteq> [] \<and>
      (\<forall>row \<in> set rws. length row = length cols \<and> (\<forall>v \<in> set row. wf_value v)) \<Longrightarrow>
   extract_table_data (synthetic_dump t cols stmts) t = map (zip cols) (concat stmts)
   \<and> length (extract_table_data (synthetic_dump t cols stmts) t) = length (concat stmts)
   \<and> (\<forall>i < length (concat stmts).
         map fst (extract_table_data (synthetic_dump t cols stmts) t ! i) = cols
         \<and> map snd (extract_table_data (synthetic_dump t cols stmts) t ! i) = concat stmts ! i)"
proof -
  assume a: "plain_name t" "cols \<noteq> []" "distinct cols" "\<forall>c \<in> set cols. plain_name c"
    "\<forall>rws \<in> set stmts. rws \<noteq> [] \<and>
      (\<forall>row \<in> set rws. length row = length cols \<and> (\<forall>v \<in> set row. wf_value v))"
  then have e: "extract_table_data (synthetic_dump t cols stmts) t = map (zip cols) (concat stmts)"
    by (rule round_trip_general)
  have "length (concat stmts ! i) = length cols" if "i < length (concat stmts)" for i
    using a(5) that by (metis nth_mem set_concat UN_iff)
  then show ?thesis unfolding e by simp
qed

theorem round_trip_witness:
  "plain_name ''t'' \<and> [''id'', ''name''] \<noteq> [] \<and> distinct [''id'', ''name'']
   \<and> list_all plain_name [''id'', ''name'']
   \<and> list_all (\<lambda>rws. rws \<noteq> [] \<and> list_all (\<lambda>row. length row = 2 \<and> list_all wf_value row) rws)
        [[[Some ''1'', None], [Some (''it'' @ [squote] @ ''s''), Some ''a,b)'']],
         [[None, Some (''x'' @ [backslash] @ ''y'')]]]
   \<and> synthetic_dump ''t'' [''id'', ''name'']
        [[[Some ''1'', None], [Some (''it'' @ [squote] @ ''s''), Some ''a,b)'']],
         [[None, Some (''x'' @ [backslash] @ ''y'')]]]
      = ''CREATE TABLE `t` (\<newline>  `id` text,\<newline>  `name` text\<newline>) ENGINE=InnoDB;\<newline>''
        @ ''INSERT INTO `t` VALUES ('' @ [squote] @ ''1'' @ [squote] @ '',NULL),(''
        @ [squote] @ ''it'' @ [backslash, squote] @ ''s'' @ [squote] @ '','' @ [squote] @ ''a,b)'' @ [squote] @ '');\<newline>''
        @ ''INSERT INTO `t` VALUES (NULL,'' @ [squote] @ ''x'' @ [backslash, backslash] @ ''y'' @ [squote] @ '');\<newline>''
   \<and> extract_table_data
        (synthetic_dump ''t'' [''id'', ''name'']
           [[[Some ''1'', None], [Some (''it'' @ [squote] @ ''s''), Some ''a,b)'']],
            [[None, Some (''x'' @ [backslash] @ ''y'')]]]) ''t''
      = [[(''id'', Some ''1''), (''name'', None)],
         [(''id'', Some (''it'' @ [squote] @ ''s'')), (''name'', Some ''a,b)'')],
         [(''id'', None), (''name'', Some (''x'' @ [backslash] @ ''y''))]]"
proof -
  let ?stmts = "[[[Some ''1'', None], [Some (''it'' @ [squote] @ ''s''), Some ''a,b)'']],
                 [[None, Some (''x'' @ [backslash] @ ''y'')]]]"
  have 1: "plain_name ''t''" by code_simp
  have 2: "[''id'', ''name''] \<noteq> []" by simp
  have 3: "distinct [''id'', ''name'']" by simp
  have 4: "\<forall>c \<in> set [''id'', ''name'']. plain_name c" by code_simp
  have 5: "\<forall>rws \<in> set ?stmts.
         rws \<noteq> [] \<and> (\<forall>row \<in> set rws. length row = length [''id'', ''name'']
                        \<and> (\<forall>v \<in> set row. wf_value v))"
    by simp
  have 6: "synthetic_dump ''t'' [''id'', ''name''] ?stmts
      = ''CREATE TABLE `t` (\<newline>  `id` text,\<newline>  `name` text\<newline>) ENGINE=InnoDB;\<newline>''
        @ ''INSERT INTO `t` VALUES ('' @ [squote] @ ''1'' @ [squote] @ '',NULL),(''
        @ [squote] @ ''it'' @ [backslash, squote] @ ''s'' @ [squote] @ '','' @ [squote] @ ''a,b)'' @ [squote] @ '');\<newline>''
        @ ''INSERT INTO `t` VALUES (NULL,'' @ [squote] @ ''x'' @ [backslash, backslash] @ ''y'' @ [squote] @ '');\<newline>''"
    by code_simp
  from round_trip [OF 1 2 3 4 5]
  have "extract_table_data (synthetic_dump ''t'' [''id'', ''name''] ?stmts) ''t''
          = map (zip [''id'', ''name'']) (concat ?stmts)"
    by blast
  then have 7: "extract_table_data (synthetic_dump ''t'' [''id'', ''name''] ?stmts) ''t''
      = [[(''id'', Some ''1''), (''name'', None)],
         [(''id'', Some (''it'' @ [squote] @ ''s'')), (''name'', Some ''a,b)'')],
         [(''id'', None), (''name'', Some (''x'' @ [backslash] @ ''y''))]]"
    by simp
  have 8: "list_all plain_name [''id'', ''name'']" using 4 by (simp add: list_all_iff)
  have 9: "list_all (\<lambda>rws. rws \<noteq> [] \<and> list_all (\<lambda>row. length row = 2 \<and> list_all wf_value row) rws) ?stmts"
    by simp
  from 1 2 3 6 7 8 9 show ?thesis by blast
qed

theorem round_trip_counterexample:
  "synthetic_dump ''t'' [''a''] [[[Some ''x;y'']]]
     = ''CREATE TABLE `t` (\<newline>  `a` text\<newline>) ENGINE=InnoDB;\<newline>''
       @ ''INSERT INTO `t` VALUES ('' @ [squote] @ ''x;y'' @ [squote] @ '');\<newline>''
   \<and> extract_table_data (synthetic_dump ''t'' [''a''] [[[Some ''x;y'']]]) ''t''
       \<noteq> [[(''a'', Some ''x;y'')]]"
proof -
  have 1: "synthetic_dump ''t'' [''a''] [[[Some ''x;y'']]]
     = ''CREATE TABLE `t` (\<newline>  `a` text\<newline>) ENGINE=InnoDB;\<newline>''
       @ ''INSERT INTO `t` VALUES ('' @ [squote] @ ''x;y'' @ [squote] @ '');\<newline>''"
    by code_simp
  have "extract_table_data (synthetic_dump ''t'' [''a''] [[[Some ''x;y'']]]) ''t''
          = [[(''a'', Some ([squote] @ ''x''))]]"
    by code_simp
  then have "extract_table_data (synthetic_dump ''t'' [''a''] [[[Some ''x;y'']]]) ''t''
       \<noteq> [[(''a'', Some ''x;y'')]]"
    by simp
  with 1 show ?thesis by blast
qed

text \<open>
  C3 (as amended). For every raw token the Value Normalizer applies these rules, in
  this order, to the token stripped of white space: a token that is NULL when letter
  case is ignored gives the null value; a token bounded by a pair of single quotes
  gives the text between the quotes, in which first backslash-quote is replaced by a
  quote and then backslash-backslash by a backslash; a token bounded by a pair of
  double quotes is treated in the same way; every other token, a numeral too, is
  returned as it is, as text, with one exception: the token that is one single quote
  or one double quote alone gives the empty text. Stripping leaves a token of the
  Tokenizer as it is.
\<close>

theorem clean_value_rules:
  "clean_value tok
     = (if strip tok = [squote] \<or> strip tok = [dquote] then Some []
        else normalizer_rules (strip tok))
   \<and> clean_value (strip tok) = clean_value tok
   \<and> (isdigit (strip tok) \<longrightarrow> clean_value tok = Some (strip tok))"
proof -
  have e: "replace [a, b] new [] = []" for a b :: char and new
    by (rule replace2_Nil)
  have 1: "clean_value t = (if strip t = [squote] \<or> strip t = [dquote] then Some []
                            else normalizer_rules (strip t))" for t
  proof (cases "strip t = [squote] \<or> strip t = [dquote]")
    case True
    have "upper [squote] \<noteq> ''NULL''" "upper [dquote] \<noteq> ''NULL''" by (simp_all add: upper_def)
    with True show ?thesis
      by (auto simp: clean_value_def Let_def startswith_char endswith_char inner_def e)
  next
    case False
    then have "startswith (strip t) [squote] \<and> endswith (strip t) [squote] \<longleftrightarrow> bounded squote (strip t)"
      and "startswith (strip t) [dquote] \<and> endswith (strip t) [dquote] \<longleftrightarrow> bounded dquote (strip t)"
      by (simp_all add: quoted_token)
    with False show ?thesis
      by (simp add: clean_value_def normalizer_rules_def Let_def upper_NULL_iff)
  qed
  have l: "lower_char c \<noteq> CHR ''n''" if "c \<in> set ''0123456789'' \<or> c \<in> set [CHR 0xB2, CHR 0xB3, CHR 0xB9]" for c
    using that by (auto simp: lower_char_def)
  have 2: "normalizer_rules v = Some v \<and> v \<noteq> [squote] \<and> v \<noteq> [dquote]" if "isdigit v" for v
  proof (cases v)
    case Nil
    with that show ?thesis by (simp add: isdigit_def)
  next
    case (Cons c w)
    with that have c: "c \<in> set ''0123456789'' \<or> c \<in> set [CHR 0xB2, CHR 0xB3, CHR 0xB9]"
      by (simp add: isdigit_def)
    then have "lower_char c \<noteq> CHR ''n''" by (rule l)
    moreover from c have "c \<noteq> squote" "c \<noteq> dquote" by auto
    ultimately show ?thesis using Cons by (simp add: normalizer_rules_def bounded_def)
  qed
  show ?thesis
    using 1 [of tok] 2 [of "strip tok"] by (simp add: clean_value_strip)
qed

theorem clean_value_rules_witness:
  "clean_value ''nUlL'' = None
   \<and> clean_value ([squote, backslash, backslash, squote, squote]) = Some [backslash, squote]
   \<and> clean_value ([dquote] @ ''a'' @ [backslash, dquote] @ ''b'' @ [dquote]) = Some (''a'' @ [dquote] @ ''b'')
   \<and> clean_value [squote] = Some [] \<and> clean_value [dquote] = Some []
   \<and> isdigit (strip '' 42'') \<and> clean_value '' 42'' = Some ''42''"
proof -
  have a: "strip ''nUlL'' \<noteq> [squote]" "strip ''nUlL'' \<noteq> [dquote]"
    "normalizer_rules (strip ''nUlL'') = None" by code_simp+
  have b: "strip [squote, backslash, backslash, squote, squote] \<noteq> [squote]"
    "strip [squote, backslash, backslash, squote, squote] \<noteq> [dquote]"
    "normalizer_rules (strip [squote, backslash, backslash, squote, squote]) = Some [backslash, squote]"
    by code_simp+
  have c: "strip ([dquote] @ ''a'' @ [backslash, dquote] @ ''b'' @ [dquote]) \<noteq> [squote]"
    "strip ([dquote] @ ''a'' @ [backslash, dquote] @ ''b'' @ [dquote]) \<noteq> [dquote]"
    "normalizer_rules (strip ([dquote] @ ''a'' @ [backslash, dquote] @ ''b'' @ [dquote]))
             = Some (''a'' @ [dquote] @ ''b'')"
    by code_simp+
  have d: "isdigit (strip '' 42'')" by code_simp
  have e: "strip '' 42'' = ''42''" by code_simp
  have f: "strip [squote] = [squote]" "strip [dquote] = [dquote]" by code_simp+
  have w1: "clean_value ''nUlL'' = None"
    using clean_value_rules [of "''nUlL''"] a by simp
  have w2: "clean_value ([squote, backslash, backslash, squote, squote]) = Some [backslash, squote]"
    using clean_value_rules [of "[squote, backslash, backslash, squote, squote]"] b by simp
  have w3: "clean_value ([dquote] @ ''a'' @ [backslash, dquote] @ ''b'' @ [dquote]) = Some (''a'' @ [dquote] @ ''b'')"
    using clean_value_rules [of "[dquote] @ ''a'' @ [backslash, dquote] @ ''b'' @ [dquote]"] c by simp
  have w5: "clean_value [squote] = Some []"
    using clean_value_rules [of "[squote]"] f by simp
  have w6: "clean_value [dquote] = Some []"
    using clean_value_rules [of "[dquote]"] f by simp
  from clean_value_rules [of "'' 42''"] d have "clean_value '' 42'' = Some (strip '' 42'')"
    by blast
  with e have w4: "clean_value '' 42'' = Some ''42''" by simp
  from w1 w2 w3 w5 w6 d w4 show ?thesis by blast
qed

theorem single_quote_token_counterexample:
  "normalizer_rules [squote] = Some [squote]
   \<and> clean_value [squote] = Some []
   \<and> clean_value [squote] \<noteq> normalizer_rules [squote]
   \<and> parse_values_string [squote] = [[Some []]]"
proof -
  have a: "normalizer_rules [squote] = Some [squote]" by code_simp
  have b: "clean_value [squote] = Some []" by code_simp
  have c: "parse_values_string [squote] = [[Some []]]" by code_simp
  from a b c show ?thesis by simp
qed

text \<open>
  C4. While the scan is inside quotes, opened by the character \<open>q\<close>, every character
  it reads is appended to the current token, a comma and a closing parenthesis too, and
  neither the current row nor the rows are touched; the scan leaves the quotes exactly
  at a character that is \<open>q\<close> and whose predecessor in the input is not a backslash.
  This is the state the scan ends in when the character is the last one of the input,
  and the state from which it goes on otherwise; it holds for every run \<open>u\<close> of
  characters of which none closes the quotes. For the Tokenizer as a whole: a text that
  begins with a quote character and in which no later character closes the quotes is
  one token of one row, whatever commas and parentheses it holds, and so is such a
  text followed by the closing quote.
\<close>

theorem quoted_text_is_literal:
  "(in_quotes st \<and> quote_char st = Some q \<longrightarrow>
      scan prev [c] st
        = st\<lparr>current_value := current_value st @ [c],
              in_quotes := \<not> (c = q \<and> prev \<noteq> Some backslash),
              quote_char := (if c = q \<and> prev \<noteq> Some backslash then None else Some q)\<rparr>
      \<and> scan prev (c # cs) st
        = scan (Some c) cs (st\<lparr>current_value := current_value st @ [c],
                              in_quotes := \<not> (c = q \<and> prev \<noteq> Some backslash),
                              quote_char := (if c = q \<and> prev \<noteq> Some backslash then None else Some q)\<rparr>)
      \<and> (quoted_run q prev u \<longrightarrow>
            scan prev u st = st\<lparr>current_value := current_value st @ u\<rparr>
            \<and> scan prev (u @ cs) st
                = scan (last (prev # map Some u)) cs (st\<lparr>current_value := current_value st @ u\<rparr>)))
   \<and> ((q = squote \<or> q = dquote) \<and> quoted_run q (Some q) u \<longrightarrow>
        parse_values_string (q # u) = [[clean_value (q # u)]]
        \<and> (closes q (last (Some q # map Some u)) q \<longrightarrow>
              parse_values_string (q # u @ [q]) = [[clean_value (q # u @ [q])]]))"
proof -
  have a: "scan prev (c # cs) st
        = scan (Some c) cs (st\<lparr>current_value := current_value st @ [c],
                              in_quotes := \<not> (c = q \<and> prev \<noteq> Some backslash),
                              quote_char := (if c = q \<and> prev \<noteq> Some backslash then None else Some q)\<rparr>)"
    if "in_quotes st" "quote_char st = Some q" for cs
    using scan_quoted_step [OF that, of prev c cs] by (simp add: closes_def)
  have b: "scan prev (u @ cs) st
             = scan (last (prev # map Some u)) cs (st\<lparr>current_value := current_value st @ u\<rparr>)"
    if "in_quotes st" "quote_char st = Some q" "quoted_run q prev u" for cs
    using that by (rule scan_quoted_run)
  have c: "parse_values_string (q # u) = [[clean_value (q # u)]]"
    if "q = squote \<or> q = dquote" "quoted_run q (Some q) u"
    using that by (rule parse_unterminated)
  have d: "parse_values_string (q # u @ [q]) = [[clean_value (q # u @ [q])]]"
    if "q = squote \<or> q = dquote" "quoted_run q (Some q) u" "closes q (last (Some q # map Some u)) q"
    using that by (rule parse_terminated)
  show ?thesis
    using a [of "[]"] a [of cs] b [of "[]"] b [of cs] c d by simp
qed

theorem quoted_text_is_literal_witness:
  "in_quotes \<lparr>rows = [], current_row = [], current_value = [squote], in_quotes = True, quote_char = Some squote\<rparr>
   \<and> quoted_run squote (Some squote) (''a,b)'' @ [backslash, squote] @ ''c'')
   \<and> scan (Some squote) (''a,b)'' @ [backslash, squote] @ ''c'')
        \<lparr>rows = [], current_row = [], current_value = [squote], in_quotes = True, quote_char = Some squote\<rparr>
      = \<lparr>rows = [], current_row = [],
         current_value = [squote] @ ''a,b)'' @ [backslash, squote] @ ''c'',
         in_quotes = True, quote_char = Some squote\<rparr>
   \<and> scan (Some (CHR ''c'')) [squote]
        \<lparr>rows = [], current_row = [],
           current_value = [squote] @ ''a,b)'' @ [backslash, squote] @ ''c'',
           in_quotes = True, quote_char = Some squote\<rparr>
      = \<lparr>rows = [], current_row = [],
         current_value = [squote] @ ''a,b)'' @ [backslash, squote] @ ''c'' @ [squote],
         in_quotes = False, quote_char = None\<rparr>
   \<and> scan (Some backslash) [squote]
        \<lparr>rows = [], current_row = [], current_value = [squote, backslash],
           in_quotes = True, quote_char = Some squote\<rparr>
      = \<lparr>rows = [], current_row = [], current_value = [squote, backslash, squote],
         in_quotes = True, quote_char = Some squote\<rparr>
   \<and> parse_values_string ([squote] @ ''a,b),(c'' @ [backslash, squote] @ ''d'')
      = [[Some ([squote] @ ''a,b),(c'' @ [backslash, squote] @ ''d'')]]
   \<and> parse_values_string ([squote] @ ''a,b),(c'' @ [backslash, squote] @ ''d'' @ [squote])
      = [[Some (''a,b),(c'' @ [squote] @ ''d'')]]"
proof -
  let ?st = "\<lparr>rows = [], current_row = [], current_value = [squote], in_quotes = True, quote_char = Some squote\<rparr>"
  let ?u = "''a,b)'' @ [backslash, squote] @ ''c''"
  let ?st2 = "\<lparr>rows = [], current_row = [], current_value = [squote] @ ?u,
                in_quotes = True, quote_char = Some squote\<rparr>"
  let ?st3 = "\<lparr>rows = [], current_row = [], current_value = [squote, backslash],
                in_quotes = True, quote_char = Some squote\<rparr>"
  let ?v = "''a,b),(c'' @ [backslash, squote] @ ''d''"
  have h1: "in_quotes ?st" by simp
  have h3: "quoted_run squote (Some squote) ?u" by (simp add: closes_def)
  have h4: "quoted_run squote (Some squote) ?v" by (simp add: closes_def)
  have h5: "closes squote (last (Some squote # map Some ?v)) squote" by (simp add: closes_def)
  have h2: "quote_char ?st = Some squote" by simp
  have g2: "in_quotes ?st2" "quote_char ?st2 = Some squote" by simp_all
  have g3: "in_quotes ?st3" "quote_char ?st3 = Some squote" by simp_all
  have "scan (Some squote) ?u ?st = ?st\<lparr>current_value := current_value ?st @ ?u\<rparr>"
    using quoted_text_is_literal [of ?st squote "Some squote" "CHR ''a''" "[]" ?u] h1 h2 h3
    by blast
  then have r1: "scan (Some squote) ?u ?st = ?st2" by simp
  have "scan (Some (CHR ''c'')) [squote] ?st2
          = ?st2\<lparr>current_value := current_value ?st2 @ [squote],
                 in_quotes := \<not> (squote = squote \<and> Some (CHR ''c'') \<noteq> Some backslash),
                 quote_char := (if squote = squote \<and> Some (CHR ''c'') \<noteq> Some backslash
                                then None else Some squote)\<rparr>"
    using quoted_text_is_literal [of ?st2 squote "Some (CHR ''c'')" squote "[]" "[]"] g2
    by blast
  then have r2: "scan (Some (CHR ''c'')) [squote] ?st2
              = \<lparr>rows = [], current_row = [], current_value = [squote] @ ?u @ [squote],
                 in_quotes = False, quote_char = None\<rparr>"
    by simp
  have "scan (Some backslash) [squote] ?st3
          = ?st3\<lparr>current_value := current_value ?st3 @ [squote],
                 in_quotes := \<not> (squote = squote \<and> Some backslash \<noteq> Some backslash),
                 quote_char := (if squote = squote \<and> Some backslash \<noteq> Some backslash
                                then None else Some squote)\<rparr>"
    using quoted_text_is_literal [of ?st3 squote "Some backslash" squote "[]" "[]"] g3
    by blast
  then have r3: "scan (Some backslash) [squote] ?st3
              = \<lparr>rows = [], current_row = [], current_value = [squote, backslash, squote],
                 in_quotes = True, quote_char = Some squote\<rparr>"
    by simp
  have e1: "clean_value (squote # ?v) = Some ([squote] @ ?v)" by code_simp
  have e2: "clean_value (squote # ?v @ [squote]) = Some (''a,b),(c'' @ [squote] @ ''d'')" by code_simp
  have p1: "parse_values_string (squote # ?v) = [[clean_value (squote # ?v)]]"
    using quoted_text_is_literal [of ?st squote None squote "[]" ?v] h4 by blast
  have p2: "parse_values_string (squote # ?v @ [squote]) = [[clean_value (squote # ?v @ [squote])]]"
    using quoted_text_is_literal [of ?st squote None squote "[]" ?v] h4 h5 by blast
  from h1 h3 r1 r2 r3 p1 [unfolded e1] p2 [unfolded e2] show ?thesis by simp
qed


text \<open>
  C2 (as amended). For every table name made of letters, digits and underscores and
  every dump text that is a text \<open>pre\<close>, a statement and a rest, where the statement is \<^verbatim>\<open>INSERT INTO `name`\<close> in any letter case,
  with one space after \<^verbatim>\<open>INSERT\<close> and one after \<^verbatim>\<open>INTO\<close>, then white space of any kind and
  length (or none), the keyword \<^verbatim>\<open>VALUES\<close> in any letter case, white space of any kind
  and length (or none), a tuple list that holds no semicolon and does not begin with
  white space, and a semicolon: the pattern matches at the statement and its group is
  the tuple list, whatever the case and the white space are; and when the words
  \<^verbatim>\<open>INSERT INTO `name`\<close> (letter case ignored) begin nowhere inside \<open>pre\<close>, the texts
  extracted from the dump are the tuple list and then the texts extracted from the
  rest. (Between \<^verbatim>\<open>INSERT\<close>, \<^verbatim>\<open>INTO\<close> and the quoted name the pattern has one space
  character each, and nothing else is matched there.)
\<close>

theorem insert_case_and_space:
  "plain_name t \<Longrightarrow> ci_eq h (insert_head t) \<Longrightarrow> \<forall>c \<in> set ws1. isspace c \<Longrightarrow>
   ci_eq vals ''VALUES'' \<Longrightarrow> \<forall>c \<in> set ws2. isspace c \<Longrightarrow>
   u = [] \<or> \<not> isspace (hd u) \<Longrightarrow> CHR '';'' \<notin> set u \<Longrightarrow>
   rx_match (insert_pattern t) (h @ ws1 @ vals @ ws2 @ u @ CHR '';'' # rest) False [] = Some (u, rest)
   \<and> (nowhere (ci_prefix (insert_head t)) pre (h @ ws1 @ vals @ ws2 @ u @ CHR '';'' # rest) \<longrightarrow>
        findall (insert_pattern t) (pre @ h @ ws1 @ vals @ ws2 @ u @ CHR '';'' # rest)
          = u # findall (insert_pattern t) rest)"
proof -
  assume a: "ci_eq h (insert_head t)" "\<forall>c \<in> set ws1. isspace c" "ci_eq vals ''VALUES''"
    "\<forall>c \<in> set ws2. isspace c" "u = [] \<or> \<not> isspace (hd u)" "CHR '';'' \<notin> set u"
  have n: "nowhere (ci_prefix ''VALUES'') ws1 (vals @ ws2 @ u @ CHR '';'' # rest)"
    using a(2) by (rule nowhere_spaces)
  have 1: "rx_match (insert_pattern t) (h @ ws1 @ vals @ ws2 @ u @ CHR '';'' # rest) False []
             = Some (u, rest)"
    using a(1) n a(3-6) by (rule insert_match)
  have 2: "findall (insert_pattern t) (pre @ h @ ws1 @ vals @ ws2 @ u @ CHR '';'' # rest)
             = u # findall (insert_pattern t) rest"
    if "nowhere (ci_prefix (insert_head t)) pre (h @ ws1 @ vals @ ws2 @ u @ CHR '';'' # rest)"
    using that a(1) n a(3-6) by (rule insert_findall_pre)
  from 1 2 show ?thesis by blast
qed

theorem insert_case_and_space_witness:
  "plain_name ''t''
   \<and> nowhere (ci_prefix (insert_head ''t'')) (''-- rows of t'' @ [newline])
        (''insert Into `T`'' @ [newline, CHR '' '', CHR 0x09] @ ''vaLues'' @ [newline, newline] @ ''(1,2)'' @ CHR '';'' # [])
   \<and> ci_eq ''insert Into `T`'' (insert_head ''t'')
   \<and> list_all isspace [newline, CHR '' '', CHR 0x09]
   \<and> ci_eq ''vaLues'' ''VALUES'' \<and> list_all isspace [newline, newline]
   \<and> (''(1,2)'' = [] \<or> \<not> isspace (hd ''(1,2)'')) \<and> CHR '';'' \<notin> set ''(1,2)''
   \<and> findall (insert_pattern ''t'')
        ((''-- rows of t'' @ [newline]) @ ''insert Into `T`'' @ [newline, CHR '' '', CHR 0x09] @ ''vaLues''
         @ [newline, newline] @ ''(1,2)'' @ CHR '';'' # [])
      = [''(1,2)'']"
proof -
  have 1: "plain_name ''t''" by code_simp
  have 0: "nowhere (ci_prefix (insert_head ''t'')) (''-- rows of t'' @ [newline])
        (''insert Into `T`'' @ [newline, CHR '' '', CHR 0x09] @ ''vaLues'' @ [newline, newline] @ ''(1,2)'' @ CHR '';'' # [])"
    by code_simp
  have 2: "ci_eq ''insert Into `T`'' (insert_head ''t'')" by code_simp
  have 3: "\<forall>c \<in> set [newline, CHR '' '', CHR 0x09]. isspace c" by code_simp
  have 4: "ci_eq ''vaLues'' ''VALUES''" by code_simp
  have 5: "\<forall>c \<in> set [newline, newline]. isspace c" by code_simp
  have 6: "''(1,2)'' = [] \<or> \<not> isspace (hd ''(1,2)'')" by code_simp
  have 7: "CHR '';'' \<notin> set ''(1,2)''" by simp
  have 8: "findall (insert_pattern ''t'') [] = []" by code_simp
  from insert_case_and_space [OF 1 2 3 4 5 6 7, of "[]" "''-- rows of t'' @ [newline]"] 0 8
  have "findall (insert_pattern ''t'')
        ((''-- rows of t'' @ [newline]) @ ''insert Into `T`'' @ [newline, CHR '' '', CHR 0x09] @ ''vaLues''
         @ [newline, newline] @ ''(1,2)'' @ CHR '';'' # [])
      = [''(1,2)'']"
    by simp
  moreover have "list_all isspace [newline, CHR '' '', CHR 0x09]" "list_all isspace [newline, newline]"
    by (simp_all add: isspace_def)
  ultimately show ?thesis using 0 1 2 4 6 7 by blast
qed

theorem insert_space_counterexample:
  "findall (insert_pattern ''t'') (''INSERT INTO'' @ [newline] @ ''`t` VALUES (1);'')
     \<noteq> findall (insert_pattern ''t'') ''INSERT INTO `t` VALUES (1);''"
proof -
  have "findall (insert_pattern ''t'') (''INSERT INTO'' @ [newline] @ ''`t` VALUES (1);'') = []"
    by code_simp
  moreover have "findall (insert_pattern ''t'') ''INSERT INTO `t` VALUES (1);'' = [''(1)'']"
    by code_simp
  ultimately show ?thesis by simp
qed


text \<open>
  C8 (as amended). When the \<^verbatim>\<open>CREATE TABLE\<close> pattern of the table matches nowhere in the
  dump (as for a block that is written \<^verbatim>\<open>CREATE TABLE IF NOT EXISTS\<close>, or one whose
  closing parenthesis is not followed by \<^verbatim>\<open>ENGINE\<close>), the Column List is empty and
  nothing is raised. When the dump is a text \<open>pre\<close>, a block and a rest, where the
  block is the words \<^verbatim>\<open>CREATE TABLE `name`\<close> (letter case ignored, the name made of
  letters, digits and underscores; they begin nowhere inside \<open>pre\<close>), white space or none, an opening parenthesis, a body, a closing
  parenthesis, white space or none, and \<^verbatim>\<open>ENGINE\<close> (letter case ignored), and where
  nowhere inside the body a closing parenthesis is followed by white space or none and
  \<^verbatim>\<open>ENGINE\<close>, the Column List holds, in the order of the lines of the body, the names
  of the lines that begin with a backtick once trimmed, and of no other line
  (constraint lines and blank lines are passed over); the name of a line is the text
  between its first two backticks.
\<close>

theorem column_list_of_block:
  "plain_name t \<Longrightarrow>
   (rx_search (create_pattern t) sql = None \<longrightarrow> table_columns sql t = Some [])
   \<and> (sql = pre @ h @ ws @ CHR ''('' # body @ CHR '')'' # ws' @ eng @ rest
        \<and> nowhere (ci_prefix (create_head t)) pre (h @ ws @ CHR ''('' # body @ CHR '')'' # ws' @ eng @ rest)
        \<and> ci_eq h (create_head t) \<and> (\<forall>c \<in> set ws. isspace c)
        \<and> nowhere block_end body (CHR '')'' # ws' @ eng @ rest)
        \<and> (\<forall>c \<in> set ws'. isspace c) \<and> ci_eq eng ''ENGINE''
      \<longrightarrow> table_columns sql t
            = Some (map column_name (filter is_column_line (map strip (py_split newline body)))))
   \<and> (backtick \<notin> set name \<longrightarrow> column_name (backtick # name @ backtick # line_rest) = name)"
proof -
  have a: "rx_search (create_pattern t) sql = None \<Longrightarrow> table_columns sql t = Some []"
    by (simp add: table_columns_def)
  have b: "table_columns sql t
            = Some (map column_name (filter is_column_line (map strip (py_split newline body))))"
    if "sql = pre @ h @ ws @ CHR ''('' # body @ CHR '')'' # ws' @ eng @ rest"
      and "nowhere (ci_prefix (create_head t)) pre (h @ ws @ CHR ''('' # body @ CHR '')'' # ws' @ eng @ rest)"
      and "ci_eq h (create_head t)" and "\<forall>c \<in> set ws. isspace c"
      and "nowhere block_end body (CHR '')'' # ws' @ eng @ rest)"
      and "\<forall>c \<in> set ws'. isspace c" and "ci_eq eng ''ENGINE''"
    using create_search [OF that(2-7)] that(1)
    by (simp add: table_columns_def column_loop_eq)
  have c: "backtick \<notin> set name \<Longrightarrow> column_name (backtick # name @ backtick # line_rest) = name"
  proof -
    assume "backtick \<notin> set name"
    then have "takeWhile (\<lambda>c. c \<noteq> backtick) (name @ backtick # line_rest) = name"
      by (subst takeWhile_append2) auto
    then show ?thesis by (simp add: column_name_def)
  qed
  from a b c show ?thesis by blast
qed

theorem column_list_of_block_witness:
  "plain_name ''t''
   \<and> rx_search (create_pattern ''t'') ''INSERT INTO `t` VALUES (1);'' = None
   \<and> table_columns ''INSERT INTO `t` VALUES (1);'' ''t'' = Some []
   \<and> nowhere (ci_prefix (create_head ''t'')) ''-- dump\<newline>''
        (''CREATE TABLE `t`'' @ '' '' @ CHR ''('' #
           ''\<newline>  `id` int(11) NOT NULL,\<newline>  `name` varchar(255) DEFAULT NULL,\<newline>\<newline>  PRIMARY KEY (`id`),\<newline>  KEY `idx` (`name`)\<newline>''
           @ CHR '')'' # '' '' @ ''ENGINE'' @ ''=InnoDB;\<newline>'')
   \<and> ci_eq ''CREATE TABLE `t`'' (create_head ''t'') \<and> list_all isspace '' ''
   \<and> nowhere block_end
        ''\<newline>  `id` int(11) NOT NULL,\<newline>  `name` varchar(255) DEFAULT NULL,\<newline>\<newline>  PRIMARY KEY (`id`),\<newline>  KEY `idx` (`name`)\<newline>''
        (CHR '')'' # '' '' @ ''ENGINE'' @ ''=InnoDB;\<newline>'')
   \<and> ci_eq ''ENGINE'' ''ENGINE''
   \<and> table_columns
        (''-- dump\<newline>'' @ ''CREATE TABLE `t`'' @ '' '' @ CHR ''('' #
           ''\<newline>  `id` int(11) NOT NULL,\<newline>  `name` varchar(255) DEFAULT NULL,\<newline>\<newline>  PRIMARY KEY (`id`),\<newline>  KEY `idx` (`name`)\<newline>''
           @ CHR '')'' # '' '' @ ''ENGINE'' @ ''=InnoDB;\<newline>'') ''t''
      = Some [''id'', ''name'']
   \<and> backtick \<notin> set ''id''
   \<and> column_name (backtick # ''id'' @ backtick # '' int(11) NOT NULL,'') = ''id''"
proof -
  let ?body = "''\<newline>  `id` int(11) NOT NULL,\<newline>  `name` varchar(255) DEFAULT NULL,\<newline>\<newline>  PRIMARY KEY (`id`),\<newline>  KEY `idx` (`name`)\<newline>''"
  let ?blk = "''CREATE TABLE `t`'' @ '' '' @ CHR ''('' # ?body @ CHR '')'' # '' '' @ ''ENGINE'' @ ''=InnoDB;\<newline>''"
  have 1: "plain_name ''t''" by code_simp
  have 2: "rx_search (create_pattern ''t'') ''INSERT INTO `t` VALUES (1);'' = None" by code_simp
  have 3: "nowhere (ci_prefix (create_head ''t'')) ''-- dump\<newline>'' ?blk" by code_simp
  have 4: "ci_eq ''CREATE TABLE `t`'' (create_head ''t'')" by code_simp
  have 5: "\<forall>c \<in> set '' ''. isspace c" by code_simp
  have 6: "nowhere block_end ?body (CHR '')'' # '' '' @ ''ENGINE'' @ ''=InnoDB;\<newline>'')" by code_simp
  have 7: "ci_eq ''ENGINE'' ''ENGINE''" by code_simp
  have 8: "map column_name (filter is_column_line (map strip (py_split newline ?body))) = [''id'', ''name'']"
    by code_simp
  have 9: "backtick \<notin> set ''id''" by simp
  have a: "table_columns ''INSERT INTO `t` VALUES (1);'' ''t'' = Some []"
    using column_list_of_block [OF 1, of "''INSERT INTO `t` VALUES (1);''"] 2 by blast
  have b: "table_columns (''-- dump\<newline>'' @ ?blk) ''t''
             = Some (map column_name (filter is_column_line (map strip (py_split newline ?body))))"
    using column_list_of_block [OF 1, of "''-- dump\<newline>'' @ ?blk" "''-- dump\<newline>''"
        "''CREATE TABLE `t`''" "'' ''" ?body "'' ''" "''ENGINE''" "''=InnoDB;\<newline>''"] 3 4 5 6 7
    by blast
  have c: "column_name (backtick # ''id'' @ backtick # '' int(11) NOT NULL,'') = ''id''"
    using column_list_of_block [OF 1, of _ _ _ _ _ _ _ _ "''id''" "'' int(11) NOT NULL,''"] 9
    by blast
  have 10: "list_all isspace '' ''" by (simp add: isspace_def)
  from 1 2 3 4 6 7 9 10 a b [unfolded 8] c show ?thesis by blast
qed

theorem create_block_counterexample:
  "table_columns
     (''CREATE TABLE `t` (\<newline>  `id` int(11) NOT NULL,\<newline>  PRIMARY KEY (`id`)\<newline>) DEFAULT CHARSET=utf8;\<newline>''
      @ ''INSERT INTO `t` VALUES (1);'') ''t'' = Some []
   \<and> table_columns
     (''CREATE TABLE `t` (\<newline>  `id` int(11) NOT NULL,\<newline>  PRIMARY KEY (`id`)\<newline>) DEFAULT CHARSET=utf8;\<newline>''
      @ ''INSERT INTO `t` VALUES (1);'') ''t'' \<noteq> Some [''id'']
   \<and> table_columns
     (''CREATE TABLE IF NOT EXISTS `t` (\<newline>  `id` int(11) NOT NULL,\<newline>  PRIMARY KEY (`id`)\<newline>) ENGINE=InnoDB;\<newline>''
      @ ''INSERT INTO `t` VALUES (1);'') ''t'' = Some []
   \<and> extract_table_data
     (''CREATE TABLE `t` (\<newline>  `id` int(11) NOT NULL,\<newline>  PRIMARY KEY (`id`)\<newline>) DEFAULT CHARSET=utf8;\<newline>''
      @ ''INSERT INTO `t` VALUES (1);'') ''t'' = []"
proof -
  have a: "table_columns
     (''CREATE TABLE `t` (\<newline>  `id` int(11) NOT NULL,\<newline>  PRIMARY KEY (`id`)\<newline>) DEFAULT CHARSET=utf8;\<newline>''
      @ ''INSERT INTO `t` VALUES (1);'') ''t'' = Some []"
    by code_simp
  have b: "table_columns
     (''CREATE TABLE IF NOT EXISTS `t` (\<newline>  `id` int(11) NOT NULL,\<newline>  PRIMARY KEY (`id`)\<newline>) ENGINE=InnoDB;\<newline>''
      @ ''INSERT INTO `t` VALUES (1);'') ''t'' = Some []"
    by code_simp
  have c: "extract_table_data
     (''CREATE TABLE `t` (\<newline>  `id` int(11) NOT NULL,\<newline>  PRIMARY KEY (`id`)\<newline>) DEFAULT CHARSET=utf8;\<newline>''
      @ ''INSERT INTO `t` VALUES (1);'') ''t'' = []"
    by code_simp
  from a b c show ?thesis by simp
qed

end
